theory Spec2Isabelle
  imports Main "HOL-Library.Multiset"
begin

section \<open>Data model of \<open>src/loader.tsx\<close>\<close>

text \<open>
  The store, hook and registry classes of the source are objects with identity that are
  mutated in place. They are modelled by an explicit store: a \<open>world\<close> record holding one
  heap of \<open>TableStore\<close> objects, one heap of \<open>Hook\<close> objects and the registry, with
  references (\<open>store_ref\<close>, \<open>hook_ref\<close>) standing for object identity. A symbol is a
  number drawn from a counter, so two calls of \<open>Symbol(...)\<close> never give the same one.

  A value of the record type \<open>'a\<close> is a JavaScript value as \<open>===\<close> sees it: HOL equality
  on \<open>'a\<close> stands for strict equality, so two distinct objects are two distinct elements
  of \<open>'a\<close> even when all their fields agree.
\<close>

datatype error =
    TypeError          \<comment> \<open>a method call on \<open>undefined\<close>\<close>
  | InvalidArgument    \<comment> \<open>the \<open>Error\<close> thrown by \<open>createComparator\<close>\<close>
  | Bug1               \<comment> \<open>the \<open>Error\<close> thrown by \<open>combinePredicates\<close>\<close>

type_synonym symbol = nat
type_synonym store_ref = nat
type_synonym hook_ref = nat

type_synonym 'a Equality = "'a \<Rightarrow> 'a \<Rightarrow> bool"
type_synonym 'a QueryFunction = "'a list \<Rightarrow> 'a list"

text \<open>
  The rerender callback of a hook has type \<open>() => void\<close>. What the store can observe of
  such a closure is that it was called and which calls it makes back into the store while
  the fan-out is running. It is modelled as the list of those calls, made in order, where
  a call subscribes or unsubscribes a hook; the empty list is a callback that only
  schedules a redraw, as \<open>() => setNumber(s => s + 1)\<close> does under batched updates.
  A callback that starts another mutation from inside the fan-out is not modelled.
\<close>

datatype reentry = CallSubscribe hook_ref | CallUnsubscribe hook_ref

type_synonym callback = "reentry list"

text \<open>
  \<open>class TableStore\<close>. The \<open>SubscriberCollection\<close> a store owns is never shared, so its
  array is the field \<open>subscriber\<close> of the store.
\<close>

record 'a TableStore =
  reference :: symbol
  equalityFn :: "'a Equality"
  subscriber :: "hook_ref list"
  state :: "'a list"

text \<open>\<open>class Hook\<close>. The field \<open>table\<close> is \<open>None\<close> when the constructor was given \<open>undefined\<close>.\<close>

record 'a Hook =
  table :: "store_ref option"
  queryFn :: "'a QueryFunction"
  triggerRerender :: callback
  oldState :: "'a list option"

text \<open>
  The two logs are observation only: \<open>visits\<close> records every call of \<open>Hook.rerender\<close>,
  \<open>fired\<close> every call of a hook's \<open>triggerRerender\<close>, both by hook and in order.
\<close>

record 'a world =
  stores :: "store_ref \<Rightarrow> 'a TableStore"
  next_store :: store_ref
  hooks :: "hook_ref \<Rightarrow> 'a Hook"
  next_hook :: hook_ref
  registry :: "symbol \<Rightarrow> store_ref option"
  next_symbol :: symbol
  visits :: "hook_ref list"
  fired :: "hook_ref list"

definition no_store :: "'a TableStore" where
  "no_store = \<lparr>reference = 0, equalityFn = (\<lambda>a b. a = b), subscriber = [], state = []\<rparr>"

definition no_hook :: "'a Hook" where
  "no_hook = \<lparr>table = None, queryFn = (\<lambda>array. array), triggerRerender = [], oldState = None\<rparr>"

definition initial_world :: "'a world" where
  "initial_world =
     \<lparr>stores = (\<lambda>_. no_store), next_store = 0, hooks = (\<lambda>_. no_hook), next_hook = 0,
      registry = (\<lambda>_. None), next_symbol = 0, visits = [], fired = []\<rparr>"

section \<open>TableRegistry\<close>

definition TableRegistry_get :: "symbol \<Rightarrow> 'a world \<Rightarrow> store_ref option" where
  "TableRegistry_get tableReference w = registry w tableReference"

definition TableRegistry_set :: "symbol \<Rightarrow> store_ref \<Rightarrow> 'a world \<Rightarrow> 'a world" where
  "TableRegistry_set tableReference t w = w\<lparr>registry := (registry w)(tableReference \<mapsto> t)\<rparr>"

definition TableRegistry_delete :: "symbol \<Rightarrow> 'a world \<Rightarrow> 'a world" where
  "TableRegistry_delete tableReference w = w\<lparr>registry := (registry w)(tableReference := None)\<rparr>"

definition TableRegistry_clear :: "'a world \<Rightarrow> 'a world" where
  "TableRegistry_clear w = w\<lparr>registry := (\<lambda>_. None)\<rparr>"

section \<open>SubscriberCollection\<close>

text \<open>\<open>Array.prototype.indexOf\<close> with \<open>None\<close> for \<open>-1\<close>.\<close>

fun indexOf :: "'b list \<Rightarrow> 'b \<Rightarrow> nat option" where
  "indexOf [] x = None"
| "indexOf (y # ys) x = (if y = x then Some 0 else map_option Suc (indexOf ys x))"

text \<open>\<open>splice(index, 1)\<close>: the element at \<open>index\<close> is removed, the later ones move down.\<close>

definition splice1 :: "nat \<Rightarrow> 'b list \<Rightarrow> 'b list" where
  "splice1 index xs = take index xs @ drop (Suc index) xs"

definition SubscriberCollection_subscribe :: "hook_ref \<Rightarrow> hook_ref list \<Rightarrow> hook_ref list" where
  "SubscriberCollection_subscribe s subs = subs @ [s]"

definition SubscriberCollection_unsubscribe :: "hook_ref \<Rightarrow> hook_ref list \<Rightarrow> hook_ref list" where
  "SubscriberCollection_unsubscribe s subs =
     (case indexOf subs s of None \<Rightarrow> subs | Some index \<Rightarrow> splice1 index subs)"

section \<open>TableStore: reading and subscribing\<close>

definition TableStore_executeQuery :: "store_ref \<Rightarrow> 'a QueryFunction \<Rightarrow> 'a world \<Rightarrow> 'a list" where
  "TableStore_executeQuery t qf w = qf (state (stores w t))"

definition TableStore_subscribe :: "store_ref \<Rightarrow> hook_ref \<Rightarrow> 'a world \<Rightarrow> 'a world" where
  "TableStore_subscribe t h w =
     w\<lparr>stores := (stores w)
         (t := (stores w t)\<lparr>subscriber := SubscriberCollection_subscribe h (subscriber (stores w t))\<rparr>)\<rparr>"

definition TableStore_unsubscribe :: "store_ref \<Rightarrow> hook_ref \<Rightarrow> 'a world \<Rightarrow> 'a world" where
  "TableStore_unsubscribe t h w =
     w\<lparr>stores := (stores w)
         (t := (stores w t)\<lparr>subscriber := SubscriberCollection_unsubscribe h (subscriber (stores w t))\<rparr>)\<rparr>"

section \<open>Hook\<close>

text \<open>
  A procedure that can throw returns the error, if any, together with the world as it was
  when the procedure ended: an exception does not undo what was written before it.
\<close>

definition new_Hook ::
  "store_ref option \<Rightarrow> 'a QueryFunction \<Rightarrow> callback \<Rightarrow> 'a world \<Rightarrow> hook_ref \<times> 'a world" where
  "new_Hook t qf rerender w =
     (next_hook w,
      w\<lparr>hooks := (hooks w)
           (next_hook w := \<lparr>table = t, queryFn = qf, triggerRerender = rerender, oldState = None\<rparr>),
        next_hook := Suc (next_hook w)\<rparr>)"

definition Hook_subscribe :: "hook_ref \<Rightarrow> 'a world \<Rightarrow> error option \<times> 'a world" where
  "Hook_subscribe h w =
     (case table (hooks w h) of
        None \<Rightarrow> (Some TypeError, w)
      | Some t \<Rightarrow> (None, TableStore_subscribe t h w))"

definition Hook_unsubscribe :: "hook_ref \<Rightarrow> 'a world \<Rightarrow> error option \<times> 'a world" where
  "Hook_unsubscribe h w =
     (case table (hooks w h) of
        None \<Rightarrow> (Some TypeError, w)
      | Some t \<Rightarrow> (None, TableStore_unsubscribe t h w))"

text \<open>
  \<open>return this.oldState = this.table.executeQuery(this.queryFn = queryFn)\<close>: the callee
  \<open>this.table.executeQuery\<close> is read before the argument is evaluated, so with an
  undefined table nothing is written.
\<close>

definition Hook_executeQuery ::
  "hook_ref \<Rightarrow> 'a QueryFunction \<Rightarrow> 'a world \<Rightarrow> (error + 'a list) \<times> 'a world" where
  "Hook_executeQuery h qf w =
     (case table (hooks w h) of
        None \<Rightarrow> (Inl TypeError, w)
      | Some t \<Rightarrow>
          (let result = TableStore_executeQuery t qf w
           in (Inr result,
               w\<lparr>hooks := (hooks w)(h := (hooks w h)\<lparr>queryFn := qf, oldState := Some result\<rparr>)\<rparr>)))"

text \<open>
  \<open>Hook.arrayEquals\<close>. The loop also returns the indices at which it called
  \<open>equalityFn\<close>, in the order of the calls, so that where it stops can be stated.
\<close>

function arrayEquals_loop :: "nat \<Rightarrow> 'a list \<Rightarrow> 'a list \<Rightarrow> 'a Equality \<Rightarrow> bool \<times> nat list" where
  "arrayEquals_loop i arr1 arr2 eq =
     (if i < length arr1 then
        (if \<not> eq (arr1 ! i) (arr2 ! i) then (False, [i])
         else (let r = arrayEquals_loop (Suc i) arr1 arr2 eq in (fst r, i # snd r)))
      else (True, []))"
  by pat_completeness auto
termination
  by (relation "measure (\<lambda>(i, arr1, arr2, eq). length arr1 - i)") auto

declare arrayEquals_loop.simps [simp del]

definition arrayEquals_probes :: "'a list \<Rightarrow> 'a list \<Rightarrow> 'a Equality \<Rightarrow> bool \<times> nat list" where
  "arrayEquals_probes arr1 arr2 eq =
     (if length arr1 \<noteq> length arr2 then (False, []) else arrayEquals_loop 0 arr1 arr2 eq)"

definition arrayEquals :: "'a list \<Rightarrow> 'a list \<Rightarrow> 'a Equality \<Rightarrow> bool" where
  "arrayEquals arr1 arr2 eq = fst (arrayEquals_probes arr1 arr2 eq)"

text \<open>Running a callback: the call is logged, then its calls into the store are made in order.\<close>

fun run_reentry :: "reentry list \<Rightarrow> 'a world \<Rightarrow> error option \<times> 'a world" where
  "run_reentry [] w = (None, w)"
| "run_reentry (c # cs) w =
     (case (case c of CallSubscribe g \<Rightarrow> Hook_subscribe g w
                    | CallUnsubscribe g \<Rightarrow> Hook_unsubscribe g w) of
        (Some e, w') \<Rightarrow> (Some e, w')
      | (None, w') \<Rightarrow> run_reentry cs w')"

definition call_triggerRerender :: "hook_ref \<Rightarrow> 'a world \<Rightarrow> error option \<times> 'a world" where
  "call_triggerRerender h w =
     run_reentry (triggerRerender (hooks w h)) (w\<lparr>fired := fired w @ [h]\<rparr>)"

definition set_oldState :: "hook_ref \<Rightarrow> 'a list \<Rightarrow> 'a world \<Rightarrow> 'a world" where
  "set_oldState h newState w = w\<lparr>hooks := (hooks w)(h := (hooks w h)\<lparr>oldState := Some newState\<rparr>)\<rparr>"

definition Hook_rerender :: "hook_ref \<Rightarrow> 'a Equality \<Rightarrow> 'a world \<Rightarrow> error option \<times> 'a world" where
  "Hook_rerender h eq w0 =
     (let w = w0\<lparr>visits := visits w0 @ [h]\<rparr>
      in case table (hooks w h) of
           None \<Rightarrow> (Some TypeError, w)
         | Some t \<Rightarrow>
             (let newState = TableStore_executeQuery t (queryFn (hooks w h)) w
              in if (case oldState (hooks w h) of
                       None \<Rightarrow> True
                     | Some old \<Rightarrow> \<not> arrayEquals old newState eq)
                 then (case call_triggerRerender h w of
                         (Some e, w') \<Rightarrow> (Some e, w')
                       | (None, w') \<Rightarrow> (None, set_oldState h newState w'))
                 else (None, set_oldState h newState w)))"

section \<open>Notification fan-out and mutation\<close>

text \<open>
  \<open>this.subscriber.forEach(s => s.rerender(equalityFn))\<close>. \<open>Array.prototype.forEach\<close>
  reads the length once, then for each index below it calls the function on the element
  the array holds at that index at that moment, if the array still has that index.
\<close>

function forEach_subscriber ::
  "nat \<Rightarrow> nat \<Rightarrow> store_ref \<Rightarrow> 'a Equality \<Rightarrow> 'a world \<Rightarrow> error option \<times> 'a world" where
  "forEach_subscriber k len t eq w =
     (if k < len then
        (if k < length (subscriber (stores w t)) then
           (case Hook_rerender (subscriber (stores w t) ! k) eq w of
              (Some e, w') \<Rightarrow> (Some e, w')
            | (None, w') \<Rightarrow> forEach_subscriber (Suc k) len t eq w')
         else forEach_subscriber (Suc k) len t eq w)
      else (None, w))"
  by pat_completeness auto
termination
  by (relation "measure (\<lambda>(k, len, t, eq, w). len - k)") auto

declare forEach_subscriber.simps [simp del]

definition SubscriberCollection_rerender ::
  "store_ref \<Rightarrow> 'a Equality \<Rightarrow> 'a world \<Rightarrow> error option \<times> 'a world" where
  "SubscriberCollection_rerender t eq w =
     forEach_subscriber 0 (length (subscriber (stores w t))) t eq w"

definition TableStore_rerender :: "store_ref \<Rightarrow> 'a world \<Rightarrow> error option \<times> 'a world" where
  "TableStore_rerender t w = SubscriberCollection_rerender t (equalityFn (stores w t)) w"

datatype 'a SetStateAction = Value "'a list" | Updater "'a list \<Rightarrow> 'a list"

definition TableStore_setStateAction ::
  "store_ref \<Rightarrow> 'a SetStateAction \<Rightarrow> 'a world \<Rightarrow> error option \<times> 'a world" where
  "TableStore_setStateAction t action w =
     (let new = (case action of Updater f \<Rightarrow> f (state (stores w t)) | Value s \<Rightarrow> s)
      in TableStore_rerender t (w\<lparr>stores := (stores w)(t := (stores w t)\<lparr>state := new\<rparr>)\<rparr>))"

section \<open>Creating tables and binding hooks\<close>

text \<open>
  The argument of \<open>createTable\<close> as the run-time tests of \<open>createComparator\<close> see it:
  \<open>undefined\<close>, a string, a function, or a value of any other type.
\<close>

datatype 'a keyOrEqualityFn =
    Undefined
  | Key string
  | EqualityFn "'a Equality"
  | OtherValue

text \<open>
  \<open>field a key\<close> is the property read \<open>a[key]\<close>; HOL equality on the type \<open>'v\<close> of
  property values stands for \<open>===\<close>.
\<close>

definition createComparator ::
  "('a \<Rightarrow> string \<Rightarrow> 'v) \<Rightarrow> 'a keyOrEqualityFn \<Rightarrow> error + 'a Equality" where
  "createComparator field keyOrEqualityFn =
     (case keyOrEqualityFn of
        Undefined \<Rightarrow> Inr (\<lambda>a b. a = b)
      | Key k \<Rightarrow> Inr (\<lambda>a b. field a k = field b k)
      | EqualityFn f \<Rightarrow> Inr f
      | OtherValue \<Rightarrow> Inl InvalidArgument)"

definition new_TableStore :: "'a Equality \<Rightarrow> 'a world \<Rightarrow> store_ref \<times> 'a world" where
  "new_TableStore eq w =
     (next_store w,
      w\<lparr>stores := (stores w)
           (next_store w :=
              \<lparr>reference = next_symbol w, equalityFn = eq, subscriber = [], state = []\<rparr>),
        next_store := Suc (next_store w),
        next_symbol := Suc (next_symbol w)\<rparr>)"

text \<open>
  What \<open>createTable\<close> returns: the handle \<open>{ reference }\<close>, the store that the returned
  \<open>setStateAction.bind(table)\<close> acts on, and the reference that the returned cleanup
  function deletes from the registry.
\<close>

record created =
  handle :: symbol
  setState :: store_ref
  cleanup :: symbol

definition createTable ::
  "('a \<Rightarrow> string \<Rightarrow> 'v) \<Rightarrow> 'a keyOrEqualityFn \<Rightarrow> 'a world \<Rightarrow> (error + created) \<times> 'a world" where
  "createTable field keyOrEqualityFn w =
     (case createComparator field keyOrEqualityFn of
        Inl e \<Rightarrow> (Inl e, w)
      | Inr eq \<Rightarrow>
          (let (t, w1) = new_TableStore eq w;
               w2 = TableRegistry_set (reference (stores w1 t)) t w1
           in (Inr \<lparr>handle = reference (stores w2 t), setState = t,
                    cleanup = reference (stores w2 t)\<rparr>, w2)))"

text \<open>
  Of \<open>useQuery\<close>, the construction of the hook,
  \<open>new Hook(registry.get(table), queryFn, ...)\<close>, with the callback as a parameter.
\<close>

definition useQuery_new_Hook ::
  "symbol \<Rightarrow> 'a QueryFunction \<Rightarrow> callback \<Rightarrow> 'a world \<Rightarrow> hook_ref \<times> 'a world" where
  "useQuery_new_Hook tbl qf rerender w = new_Hook (TableRegistry_get tbl w) qf rerender w"

section \<open>Additional utility\<close>

text \<open>
  To state which of two predicates \<open>combinePredicates\<close> calls, a predicate here may have an
  effect: it takes a state of any type \<open>'s\<close> and returns its answer with the state it
  leaves. A pure predicate leaves the state as it is.
\<close>

type_synonym ('a, 's) Predicate = "'a \<Rightarrow> 's \<Rightarrow> bool \<times> 's"


definition combinePredicates ::
  "('a, 's) Predicate option \<Rightarrow> ('a, 's) Predicate option \<Rightarrow> error + ('a, 's) Predicate option" where
  "combinePredicates p1 p2 =
     (if Option.is_none p1 \<and> Option.is_none p2 then Inr None
      else if \<not> Option.is_none p1 \<and> \<not> Option.is_none p2 then
        Inr (Some (\<lambda>v s. (let (b, s1) = the p1 v s in if b then the p2 v s1 else (b, s1))))
      else if \<not> Option.is_none p1 then Inr p1
      else if \<not> Option.is_none p2 then Inr p2
      else Inl Bug1)"

type_synonym 'a Comperator = "'a \<Rightarrow> 'a \<Rightarrow> int"

text \<open>
  The query builder is the one place where the identity of an array matters: the source
  returns either the very array it was given, or the array it filtered and sorted, or a
  new one made by \<open>slice\<close>. Arrays are therefore kept in a heap here, \<open>cells\<close> giving the
  elements an array holds and \<open>next_array\<close> the first reference not yet in use.
\<close>

type_synonym array_ref = nat

record 'a array_heap =
  cells :: "array_ref \<Rightarrow> 'a list"
  next_array :: array_ref

definition new_array :: "'a list \<Rightarrow> 'a array_heap \<Rightarrow> array_ref \<times> 'a array_heap" where
  "new_array xs H =
     (next_array H, H\<lparr>cells := (cells H)(next_array H := xs), next_array := Suc (next_array H)\<rparr>)"

text \<open>\<open>[...state]\<close> and \<open>state.filter(...)\<close> make a new array and leave the old one alone.\<close>

definition Array_spread :: "array_ref \<Rightarrow> 'a array_heap \<Rightarrow> array_ref \<times> 'a array_heap" where
  "Array_spread a H = new_array (cells H a) H"

definition Array_filter ::
  "('a \<Rightarrow> bool) \<Rightarrow> array_ref \<Rightarrow> 'a array_heap \<Rightarrow> array_ref \<times> 'a array_heap" where
  "Array_filter p a H = new_array (filter p (cells H a)) H"

text \<open>
  \<open>Array.prototype.sort\<close> belongs to the language, not to this repository; it is modelled
  from ECMAScript. The elements are compared by \<open>SortCompare\<close>: an \<open>undefined\<close> element
  is greater than every other one, two of them are equal, and only for two defined elements
  the comparison function is called. \<open>undef\<close> tells which elements are \<open>undefined\<close>.
\<close>

definition SortCompare :: "('a \<Rightarrow> bool) \<Rightarrow> 'a Comperator \<Rightarrow> 'a Comperator" where
  "SortCompare undef comparefn x y =
     (if undef x \<and> undef y then 0
      else if undef x then 1
      else if undef y then - 1
      else comparefn x y)"

text \<open>
  ECMAScript fixes the result only for a consistent comparator: on the values sorted, equal
  (\<open>= 0\<close>) is reflexive, symmetric and transitive, and less (\<open>< 0\<close>) and greater (\<open>> 0\<close>) are
  transitive. The result is then the stable sort (stability is required since ECMAScript
  2019). For any other comparator the order is left to the implementation, and the model
  gives no result (\<open>None\<close>). The source passes \<open>(x, y) => order(x, y)\<close>, which compares as
  \<open>order\<close> does.
\<close>

definition consistent_comparator :: "'a Comperator \<Rightarrow> 'a list \<Rightarrow> bool" where
  "consistent_comparator cf xs =
     (\<forall>a \<in> set xs. cf a a = 0 \<and>
        (\<forall>b \<in> set xs. (cf a b = 0 \<longrightarrow> cf b a = 0) \<and>
           (\<forall>c \<in> set xs.
              (cf a b = 0 \<and> cf b c = 0 \<longrightarrow> cf a c = 0) \<and>
              (cf a b < 0 \<and> cf b c < 0 \<longrightarrow> cf a c < 0) \<and>
              (cf a b > 0 \<and> cf b c > 0 \<longrightarrow> cf a c > 0))))"

text \<open>The stable sort, by insertion from the right: \<open>x\<close> stays before \<open>y\<close> unless it is greater.\<close>

fun sort_insert :: "'a Comperator \<Rightarrow> 'a \<Rightarrow> 'a list \<Rightarrow> 'a list" where
  "sort_insert cf x [] = [x]"
| "sort_insert cf x (y # ys) =
     (if cf x y \<le> 0 then x # y # ys else y # sort_insert cf x ys)"

definition stable_sort :: "'a Comperator \<Rightarrow> 'a list \<Rightarrow> 'a list" where
  "stable_sort cf xs = foldr (sort_insert cf) xs []"

text \<open>\<open>sort\<close> works in place: the array keeps its reference and gets the sorted elements.\<close>

definition Array_sort ::
  "('a \<Rightarrow> bool) \<Rightarrow> 'a Comperator \<Rightarrow> array_ref \<Rightarrow> 'a array_heap \<Rightarrow> 'a array_heap option" where
  "Array_sort undef comparefn a H =
     (if consistent_comparator (SortCompare undef comparefn) (cells H a)
      then Some (H\<lparr>cells := (cells H)(a := stable_sort (SortCompare undef comparefn) (cells H a))\<rparr>)
      else None)"

text \<open>
  \<open>Array.prototype.slice(start, end)\<close> on integers: a negative index counts from the end,
  both are clamped to the array, and an empty range gives the empty array.
\<close>

definition array_slice :: "'a list \<Rightarrow> int \<Rightarrow> int \<Rightarrow> 'a list" where
  "array_slice xs start end =
     (let len = int (length xs);
          k = (if start < 0 then max (len + start) 0 else min start len);
          final = (if end < 0 then max (len + end) 0 else min end len)
      in take (nat (final - k)) (drop (nat k) xs))"

definition Array_slice ::
  "array_ref \<Rightarrow> int \<Rightarrow> int \<Rightarrow> 'a array_heap \<Rightarrow> array_ref \<times> 'a array_heap" where
  "Array_slice a start end H = new_array (array_slice (cells H a) start end) H"

text \<open>
  The first half of the function \<open>createDefaultQueryFunction\<close> returns: the array that the
  variable \<open>state\<close> refers to when the offset and the limit are looked at.
\<close>

definition filter_sort ::
  "('a \<Rightarrow> bool) \<Rightarrow> ('a \<Rightarrow> bool) option \<Rightarrow> 'a Comperator option \<Rightarrow>
   array_ref \<Rightarrow> 'a array_heap \<Rightarrow> (array_ref \<times> 'a array_heap) option" where
  "filter_sort undef wher order state0 H =
     (case wher of
        None \<Rightarrow>
          (case order of
             None \<Rightarrow> Some (state0, H)
           | Some ord \<Rightarrow>
               (let (c, H1) = Array_spread state0 H
                in map_option (Pair c) (Array_sort undef ord c H1)))
      | Some p \<Rightarrow>
          (let (s, H1) = Array_filter p state0 H
           in case order of
                None \<Rightarrow> Some (s, H1)
              | Some ord \<Rightarrow> map_option (Pair s) (Array_sort undef ord s H1)))"

definition createDefaultQueryFunction ::
  "('a \<Rightarrow> bool) \<Rightarrow> ('a \<Rightarrow> bool) option \<Rightarrow> 'a Comperator option \<Rightarrow> int option \<Rightarrow> int option \<Rightarrow>
   array_ref \<Rightarrow> 'a array_heap \<Rightarrow> (array_ref \<times> 'a array_heap) option" where
  "createDefaultQueryFunction undef wher order offset limit state0 H =
     (case filter_sort undef wher order state0 H of
        None \<Rightarrow> None
      | Some (st, H1) \<Rightarrow>
          (let off = (case offset of None \<Rightarrow> 0 | Some v \<Rightarrow> v);
               lim = (case limit of None \<Rightarrow> int (length (cells H1 st)) | Some v \<Rightarrow> v)
           in Some (if off > 0 \<or> lim < int (length (cells H1 st))
                    then Array_slice st off (off + lim) H1
                    else (st, H1))))"

text \<open>
  The query builder as the specification words it. A sequence is the stable sort of
  another by a comparator when it has the same elements, is ascending by the comparator's
  sign, and elements that tie are in the order they had.
\<close>

definition stable_sorted_by :: "'a Comperator \<Rightarrow> 'a list \<Rightarrow> 'a list \<Rightarrow> bool" where
  "stable_sorted_by cf xs ys =
     (mset ys = mset xs \<and> sorted_wrt (\<lambda>a b. cf a b \<le> 0) ys \<and>
      (\<forall>x \<in> set xs. filter (\<lambda>y. cf x y = 0) ys = filter (\<lambda>y. cf x y = 0) xs))"

text \<open>
  Filter by \<open>where\<close> if present, stable-sort by \<open>order\<close> if present, skip \<open>offset\<close>
  (default 0), take \<open>limit\<close> (default: what remains after the offset).
\<close>

definition buildQuery_spec ::
  "('a \<Rightarrow> bool) \<Rightarrow> ('a \<Rightarrow> bool) option \<Rightarrow> 'a Comperator option \<Rightarrow> nat option \<Rightarrow> nat option \<Rightarrow>
   'a list \<Rightarrow> 'a list \<Rightarrow> bool" where
  "buildQuery_spec undef wher order offset limit xs ys =
     (\<exists>s. (case order of
              None \<Rightarrow> s = (case wher of None \<Rightarrow> xs | Some p \<Rightarrow> filter p xs)
            | Some ord \<Rightarrow>
                stable_sorted_by (SortCompare undef ord)
                  (case wher of None \<Rightarrow> xs | Some p \<Rightarrow> filter p xs) s) \<and>
          ys = take (case limit of
                       None \<Rightarrow> length s - (case offset of None \<Rightarrow> 0 | Some n \<Rightarrow> n)
                     | Some n \<Rightarrow> n)
                 (drop (case offset of None \<Rightarrow> 0 | Some n \<Rightarrow> n) s))"

section \<open>Notions used in the statements\<close>

text \<open>
  When a notification counts as a change, as the specification words it: no last result,
  or another length, or a position whose two elements the equality policy tells apart.
\<close>

definition result_changed :: "'a list option \<Rightarrow> 'a list \<Rightarrow> 'a Equality \<Rightarrow> bool" where
  "result_changed lastResult new eq =
     (case lastResult of
        None \<Rightarrow> True
      | Some old \<Rightarrow> length old \<noteq> length new \<or> (\<exists>i<length old. \<not> eq (old ! i) (new ! i)))"

text \<open>
  The subscribers of a store are plain when each is bound to a store and has a callback
  that makes no call back into the store.
\<close>

definition plain_subscribers :: "store_ref \<Rightarrow> 'a world \<Rightarrow> bool" where
  "plain_subscribers t w =
     (\<forall>h \<in> set (subscriber (stores w t)).
        table (hooks w h) \<noteq> None \<and> triggerRerender (hooks w h) = [])"

text \<open>
  A small world: one table made by \<open>createTable()\<close> and three hooks with the identity
  query bound to it and subscribed in the order 0, 1, 2; the callback of hook 0 is a
  parameter, the other two only schedule a redraw.
\<close>

definition three_hooks :: "callback \<Rightarrow> int world" where
  "three_hooks rerenderA =
     (case createTable (\<lambda>a k. a) Undefined initial_world of
        (Inl e, w) \<Rightarrow> w
      | (Inr c, w) \<Rightarrow>
          (let (a, w) = useQuery_new_Hook (handle c) (\<lambda>array. array) rerenderA w;
               (b, w) = useQuery_new_Hook (handle c) (\<lambda>array. array) [] w;
               (d, w) = useQuery_new_Hook (handle c) (\<lambda>array. array) [] w;
               w = snd (Hook_subscribe a w);
               w = snd (Hook_subscribe b w);
               w = snd (Hook_subscribe d w)
           in w))"

text \<open>Replacing the registry and nothing else.\<close>

definition set_registry :: "(symbol \<Rightarrow> store_ref option) \<Rightarrow> 'a world \<Rightarrow> 'a world" where
  "set_registry r w = w\<lparr>registry := r\<rparr>"

section \<open>Lemmas\<close>

lemma arrayEquals_loop_fst:
  "fst (arrayEquals_loop i arr1 arr2 eq) = (\<forall>j. i \<le> j \<and> j < length arr1 \<longrightarrow> eq (arr1 ! j) (arr2 ! j))"
proof (induction i arr1 arr2 eq rule: arrayEquals_loop.induct)
  case (1 i arr1 arr2 eq)
  show ?case
  proof (cases "i < length arr1")
    case False
    then show ?thesis by (subst arrayEquals_loop.simps) auto
  next
    case True
    show ?thesis
    proof (cases "eq (arr1 ! i) (arr2 ! i)")
      case False
      with True show ?thesis by (auto simp: arrayEquals_loop.simps [of i])
    next
      case eqi: True
      have "(\<forall>j. i \<le> j \<and> j < length arr1 \<longrightarrow> eq (arr1 ! j) (arr2 ! j)) =
            (\<forall>j. Suc i \<le> j \<and> j < length arr1 \<longrightarrow> eq (arr1 ! j) (arr2 ! j))"
        using eqi by (metis Suc_leI le_neq_implies_less Suc_leD)
      with True eqi "1.IH" show ?thesis
        by (simp add: arrayEquals_loop.simps [of i] Let_def)
    qed
  qed
qed

lemma arrayEquals_loop_probes_eq:
  "\<forall>j. i \<le> j \<and> j < length arr1 \<longrightarrow> eq (arr1 ! j) (arr2 ! j) \<Longrightarrow>
   snd (arrayEquals_loop i arr1 arr2 eq) = [i ..< length arr1]"
proof (induction i arr1 arr2 eq rule: arrayEquals_loop.induct)
  case (1 i arr1 arr2 eq)
  show ?case
  proof (cases "i < length arr1")
    case False
    then show ?thesis by (simp add: arrayEquals_loop.simps [of i])
  next
    case True
    with "1.prems" have eqi: "eq (arr1 ! i) (arr2 ! i)" by simp
    have "snd (arrayEquals_loop (Suc i) arr1 arr2 eq) = [Suc i ..< length arr1]"
      using "1.IH" True eqi "1.prems" by simp
    with True eqi show ?thesis
      by (simp add: arrayEquals_loop.simps [of i] Let_def upt_conv_Cons)
  qed
qed

lemma arrayEquals_loop_probes_neq:
  "i \<le> m \<Longrightarrow> m < length arr1 \<Longrightarrow> \<not> eq (arr1 ! m) (arr2 ! m) \<Longrightarrow>
   \<forall>j. i \<le> j \<and> j < m \<longrightarrow> eq (arr1 ! j) (arr2 ! j) \<Longrightarrow>
   snd (arrayEquals_loop i arr1 arr2 eq) = [i ..< Suc m]"
proof (induction i arr1 arr2 eq rule: arrayEquals_loop.induct)
  case (1 i arr1 arr2 eq)
  from "1.prems" have il: "i < length arr1" by simp
  show ?case
  proof (cases "i = m")
    case True
    with "1.prems" il show ?thesis by (subst arrayEquals_loop.simps) simp
  next
    case False
    with "1.prems" have lt: "i < m" by simp
    with "1.prems" have eqi: "eq (arr1 ! i) (arr2 ! i)" by simp
    have "snd (arrayEquals_loop (Suc i) arr1 arr2 eq) = [Suc i ..< Suc m]"
      using "1.IH" il eqi "1.prems" lt by simp
    with il eqi lt show ?thesis
      by (simp add: arrayEquals_loop.simps [of i] Let_def upt_conv_Cons)
  qed
qed

lemma run_reentry_fired: "fired (snd (run_reentry cs w)) = fired w"
  by (induction cs arbitrary: w)
     (auto simp: Hook_subscribe_def Hook_unsubscribe_def TableStore_subscribe_def
        TableStore_unsubscribe_def split: reentry.splits option.splits prod.splits)

lemma run_reentry_hooks: "hooks (snd (run_reentry cs w)) = hooks w"
  by (induction cs arbitrary: w)
     (auto simp: Hook_subscribe_def Hook_unsubscribe_def TableStore_subscribe_def
        TableStore_unsubscribe_def split: reentry.splits option.splits prod.splits)

lemma run_reentry_state: "state (stores (snd (run_reentry cs w)) t) = state (stores w t)"
  by (induction cs arbitrary: w)
     (auto simp: Hook_subscribe_def Hook_unsubscribe_def TableStore_subscribe_def
        TableStore_unsubscribe_def split: reentry.splits option.splits prod.splits)

lemma run_reentry_visits: "visits (snd (run_reentry cs w)) = visits w"
  by (induction cs arbitrary: w)
     (auto simp: Hook_subscribe_def Hook_unsubscribe_def TableStore_subscribe_def
        TableStore_unsubscribe_def split: reentry.splits option.splits prod.splits)

lemma arrayEquals_iff:
  "arrayEquals arr1 arr2 eq =
     (length arr1 = length arr2 \<and> (\<forall>i<length arr1. eq (arr1 ! i) (arr2 ! i)))"
  by (simp add: arrayEquals_def arrayEquals_probes_def arrayEquals_loop_fst)

lemma arrayEquals_refl: "\<forall>x. eq x x \<Longrightarrow> arrayEquals xs xs eq"
  by (simp add: arrayEquals_iff)

lemma call_triggerRerender_fired: "fired (snd (call_triggerRerender h w)) = fired w @ [h]"
  by (simp add: call_triggerRerender_def run_reentry_fired)

lemma call_triggerRerender_hooks: "hooks (snd (call_triggerRerender h w)) = hooks w"
  by (simp add: call_triggerRerender_def run_reentry_hooks)

lemma call_triggerRerender_state:
  "state (stores (snd (call_triggerRerender h w)) t) = state (stores w t)"
  by (simp add: call_triggerRerender_def run_reentry_state)

lemma call_triggerRerender_visits: "visits (snd (call_triggerRerender h w)) = visits w"
  by (simp add: call_triggerRerender_def run_reentry_visits)

lemma Hook_rerender_fired:
  assumes "table (hooks w h) = Some t"
  shows "fired (snd (Hook_rerender h eq w)) =
           fired w @ (if result_changed (oldState (hooks w h))
                           (queryFn (hooks w h) (state (stores w t))) eq
                      then [h] else [])"
proof -
  let ?w = "w\<lparr>visits := visits w @ [h]\<rparr>"
  have cb: "fired (snd (call_triggerRerender h ?w)) = fired w @ [h]"
    by (simp add: call_triggerRerender_fired)
  show ?thesis
    using assms cb
    by (cases "call_triggerRerender h ?w")
       (auto simp: Hook_rerender_def Let_def result_changed_def arrayEquals_iff
          TableStore_executeQuery_def set_oldState_def split: option.splits)
qed

lemma probes_shape:
  "arrayEquals_probes old new eq =
     (if length old \<noteq> length new then (False, [])
      else if \<exists>i<length old. \<not> eq (old ! i) (new ! i)
           then (False, [0 ..< Suc (LEAST i. i < length old \<and> \<not> eq (old ! i) (new ! i))])
           else (True, [0 ..< length old]))"
proof (cases "length old = length new")
  case False
  then show ?thesis by (simp add: arrayEquals_probes_def)
next
  case len: True
  show ?thesis
  proof (cases "\<exists>i<length old. \<not> eq (old ! i) (new ! i)")
    case False
    then have all: "\<forall>j. 0 \<le> j \<and> j < length old \<longrightarrow> eq (old ! j) (new ! j)" by simp
    have "fst (arrayEquals_loop 0 old new eq)"
      using all by (simp add: arrayEquals_loop_fst)
    moreover have "snd (arrayEquals_loop 0 old new eq) = [0 ..< length old]"
      using arrayEquals_loop_probes_eq [OF all] .
    ultimately have "arrayEquals_loop 0 old new eq = (True, [0 ..< length old])"
      by (simp add: prod_eq_iff)
    with len False show ?thesis by (simp add: arrayEquals_probes_def)
  next
    case True
    define m where "m = (LEAST i. i < length old \<and> \<not> eq (old ! i) (new ! i))"
    from True have m: "m < length old \<and> \<not> eq (old ! m) (new ! m)"
      unfolding m_def by (metis (mono_tags, lifting) LeastI_ex)
    have least: "\<forall>j. 0 \<le> j \<and> j < m \<longrightarrow> eq (old ! j) (new ! j)"
    proof (intro allI impI)
      fix j assume j: "0 \<le> j \<and> j < m"
      show "eq (old ! j) (new ! j)"
      proof (rule ccontr)
        assume "\<not> eq (old ! j) (new ! j)"
        with j m have "j < length old \<and> \<not> eq (old ! j) (new ! j)" by simp
        then have "m \<le> j" unfolding m_def by (rule Least_le)
        with j show False by simp
      qed
    qed
    have "\<not> fst (arrayEquals_loop 0 old new eq)"
      using m by (auto simp: arrayEquals_loop_fst)
    moreover have "snd (arrayEquals_loop 0 old new eq) = [0 ..< Suc m]"
      using arrayEquals_loop_probes_neq [of 0 m old eq new] m least by simp
    ultimately have "arrayEquals_loop 0 old new eq = (False, [0 ..< Suc m])"
      by (simp add: prod_eq_iff)
    with len True show ?thesis
      unfolding m_def by (simp add: arrayEquals_probes_def)
  qed
qed

lemma Hook_rerender_oldState:
  assumes "Hook_rerender h eq w = (None, w1)"
  shows "\<exists>t. table (hooks w h) = Some t \<and> table (hooks w1 h) = Some t
           \<and> queryFn (hooks w1 h) = queryFn (hooks w h)
           \<and> state (stores w1 t) = state (stores w t)
           \<and> oldState (hooks w1 h) = Some (queryFn (hooks w h) (state (stores w t)))"
proof (cases "table (hooks w h)")
  case None
  with assms show ?thesis by (simp add: Hook_rerender_def Let_def)
next
  case (Some t)
  let ?w = "w\<lparr>visits := visits w @ [h]\<rparr>"
  obtain e w' where cb: "call_triggerRerender h ?w = (e, w')"
    by (cases "call_triggerRerender h ?w")
  have h': "hooks w' = hooks w" and s': "state (stores w' t) = state (stores w t)"
    using call_triggerRerender_hooks [of h ?w] call_triggerRerender_state [of h ?w t] cb
    by simp_all
  show ?thesis
    using assms Some cb h' s'
    by (auto simp: Hook_rerender_def Let_def TableStore_executeQuery_def set_oldState_def
          split: option.splits if_splits)
qed

lemma Hook_rerender_quiet:
  assumes "table (hooks w h) = Some t"
    and "oldState (hooks w h) = Some (queryFn (hooks w h) (state (stores w t)))"
    and "\<forall>x. eq x x"
  shows "fst (Hook_rerender h eq w) = None \<and> fired (snd (Hook_rerender h eq w)) = fired w"
  using assms
  by (simp add: Hook_rerender_def Let_def TableStore_executeQuery_def set_oldState_def
        arrayEquals_refl)

lemmas world_defs =
  createTable_def createComparator_def new_TableStore_def TableRegistry_set_def
  TableRegistry_get_def useQuery_new_Hook_def new_Hook_def Hook_subscribe_def
  Hook_unsubscribe_def TableStore_subscribe_def TableStore_unsubscribe_def
  SubscriberCollection_subscribe_def SubscriberCollection_unsubscribe_def splice1_def
  initial_world_def no_store_def no_hook_def

lemma three_hooks_subs: "subscriber (stores (three_hooks cb) 0) = [0, 1, 2]"
  by (simp add: three_hooks_def world_defs Let_def)

lemma three_hooks_hooks:
  "table (hooks (three_hooks cb) 0) = Some 0"
  "table (hooks (three_hooks cb) 1) = Some 0"
  "table (hooks (three_hooks cb) 2) = Some 0"
  "triggerRerender (hooks (three_hooks cb) 0) = cb"
  by (simp_all add: three_hooks_def world_defs Let_def)

lemma Hook_rerender_plain:
  assumes "table (hooks w h) \<noteq> None" and "triggerRerender (hooks w h) = []"
  shows "\<exists>w'. Hook_rerender h eq w = (None, w') \<and> stores w' = stores w
           \<and> visits w' = visits w @ [h]
           \<and> (\<forall>g. table (hooks w' g) = table (hooks w g)
                  \<and> triggerRerender (hooks w' g) = triggerRerender (hooks w g))"
  using assms
  by (auto simp: Hook_rerender_def Let_def call_triggerRerender_def set_oldState_def)

lemma plain_subscribers_cong:
  assumes "plain_subscribers t w" and "stores w' = stores w"
    and "\<forall>g. table (hooks w' g) = table (hooks w g)
           \<and> triggerRerender (hooks w' g) = triggerRerender (hooks w g)"
  shows "plain_subscribers t w'"
  using assms by (simp add: plain_subscribers_def)

lemma forEach_plain:
  assumes "plain_subscribers t w" and "len = length (subscriber (stores w t))"
  shows "forEach_subscriber k len t eq w =
           (None, foldl (\<lambda>w h. snd (Hook_rerender h eq w)) w (drop k (subscriber (stores w t))))"
  using assms
proof (induction k len t eq w rule: forEach_subscriber.induct)
  case (1 k len t eq w)
  let ?subs = "subscriber (stores w t)"
  show ?case
  proof (cases "k < len")
    case False
    with "1.prems" show ?thesis by (subst forEach_subscriber.simps) simp
  next
    case True
    with "1.prems" have k: "k < length ?subs" by simp
    then have mem: "?subs ! k \<in> set ?subs" by simp
    with "1.prems" have pl: "table (hooks w (?subs ! k)) \<noteq> None"
        "triggerRerender (hooks w (?subs ! k)) = []"
      by (auto simp: plain_subscribers_def)
    from Hook_rerender_plain [OF pl, of eq] obtain w' where
      w': "Hook_rerender (?subs ! k) eq w = (None, w')" "stores w' = stores w"
        "\<forall>g. table (hooks w' g) = table (hooks w g)
           \<and> triggerRerender (hooks w' g) = triggerRerender (hooks w g)"
      by blast
    have pl': "plain_subscribers t w'"
      using plain_subscribers_cong [OF "1.prems"(1) w'(2) w'(3)] .
    have len': "len = length (subscriber (stores w' t))"
      using "1.prems"(2) w'(2) by simp
    have IH: "forEach_subscriber (Suc k) len t eq w' =
        (None, foldl (\<lambda>w h. snd (Hook_rerender h eq w)) w' (drop (Suc k) (subscriber (stores w' t))))"
      using "1.IH"(1) [OF True k w'(1) [symmetric] _ pl' len'] by simp
    have dr: "drop k ?subs = ?subs ! k # drop (Suc k) ?subs"
      using k by (simp add: Cons_nth_drop_Suc)
    show ?thesis
      using True k w'(1) w'(2) IH dr
      by (subst forEach_subscriber.simps) simp
  qed
qed

lemma foldl_rerender_plain:
  assumes "\<forall>h \<in> set xs. table (hooks w h) \<noteq> None \<and> triggerRerender (hooks w h) = []"
  shows "stores (foldl (\<lambda>w h. snd (Hook_rerender h eq w)) w xs) = stores w \<and>
         visits (foldl (\<lambda>w h. snd (Hook_rerender h eq w)) w xs) = visits w @ xs"
  using assms
proof (induction xs arbitrary: w)
  case Nil
  then show ?case by simp
next
  case (Cons x xs)
  from Cons.prems have "table (hooks w x) \<noteq> None" "triggerRerender (hooks w x) = []"
    by simp_all
  from Hook_rerender_plain [OF this, of eq] obtain w' where
    w': "Hook_rerender x eq w = (None, w')" "stores w' = stores w"
      "visits w' = visits w @ [x]"
      "\<forall>g. table (hooks w' g) = table (hooks w g)
         \<and> triggerRerender (hooks w' g) = triggerRerender (hooks w g)"
    by blast
  have "\<forall>h \<in> set xs. table (hooks w' h) \<noteq> None \<and> triggerRerender (hooks w' h) = []"
    using Cons.prems w'(4) by simp
  from Cons.IH [OF this] w' show ?case by simp
qed

subsection \<open>The registry is never read by a notification\<close>

lemma set_registry_fields [simp]:
  "stores (set_registry r w) = stores w"
  "hooks (set_registry r w) = hooks w"
  "visits (set_registry r w) = visits w"
  "fired (set_registry r w) = fired w"
  "registry (set_registry r w) = r"
  by (simp_all add: set_registry_def)

lemma set_registry_updates:
  "(set_registry r w)\<lparr>visits := v\<rparr> = set_registry r (w\<lparr>visits := v\<rparr>)"
  "(set_registry r w)\<lparr>fired := f\<rparr> = set_registry r (w\<lparr>fired := f\<rparr>)"
  "(set_registry r w)\<lparr>stores := s\<rparr> = set_registry r (w\<lparr>stores := s\<rparr>)"
  "(set_registry r w)\<lparr>hooks := hs\<rparr> = set_registry r (w\<lparr>hooks := hs\<rparr>)"
  by (simp_all add: set_registry_def)

lemma Hook_subscribe_registry:
  "Hook_subscribe g (set_registry r w) =
     (fst (Hook_subscribe g w), set_registry r (snd (Hook_subscribe g w)))"
  by (simp add: Hook_subscribe_def TableStore_subscribe_def set_registry_updates
        split: option.splits)

lemma Hook_unsubscribe_registry:
  "Hook_unsubscribe g (set_registry r w) =
     (fst (Hook_unsubscribe g w), set_registry r (snd (Hook_unsubscribe g w)))"
  by (simp add: Hook_unsubscribe_def TableStore_unsubscribe_def set_registry_updates
        split: option.splits)

lemma run_reentry_registry:
  "run_reentry cs (set_registry r w) =
     (fst (run_reentry cs w), set_registry r (snd (run_reentry cs w)))"
proof (induction cs arbitrary: w)
  case Nil
  show ?case by simp
next
  case (Cons c cs)
  show ?case
  proof (cases c)
    case (CallSubscribe g)
    obtain e w' where s: "Hook_subscribe g w = (e, w')" by (cases "Hook_subscribe g w")
    with CallSubscribe Cons.IH [of w'] show ?thesis
      by (cases e) (simp_all add: Hook_subscribe_registry)
  next
    case (CallUnsubscribe g)
    obtain e w' where s: "Hook_unsubscribe g w = (e, w')" by (cases "Hook_unsubscribe g w")
    with CallUnsubscribe Cons.IH [of w'] show ?thesis
      by (cases e) (simp_all add: Hook_unsubscribe_registry)
  qed
qed

lemma call_triggerRerender_registry:
  "call_triggerRerender h (set_registry r w) =
     (fst (call_triggerRerender h w), set_registry r (snd (call_triggerRerender h w)))"
  by (simp add: call_triggerRerender_def set_registry_updates run_reentry_registry)

lemma set_oldState_registry:
  "set_oldState h new (set_registry r w) = set_registry r (set_oldState h new w)"
  by (simp add: set_oldState_def set_registry_updates)

lemma Hook_rerender_registry:
  "Hook_rerender h eq (set_registry r w) =
     (fst (Hook_rerender h eq w), set_registry r (snd (Hook_rerender h eq w)))"
proof -
  let ?w = "w\<lparr>visits := visits w @ [h]\<rparr>"
  obtain e w' where cb: "call_triggerRerender h ?w = (e, w')"
    by (cases "call_triggerRerender h ?w")
  then have cb': "call_triggerRerender h (set_registry r ?w) = (e, set_registry r w')"
    by (simp add: call_triggerRerender_registry)
  show ?thesis
    using cb cb'
    by (cases e)
       (simp_all add: Hook_rerender_def Let_def set_registry_updates set_oldState_registry
          TableStore_executeQuery_def split: option.splits)
qed

lemma forEach_registry:
  "forEach_subscriber k len t eq (set_registry r w) =
     (fst (forEach_subscriber k len t eq w), set_registry r (snd (forEach_subscriber k len t eq w)))"
proof (induction k len t eq w rule: forEach_subscriber.induct)
  case (1 k len t eq w)
  show ?case
  proof (cases "k < len")
    case False
    then show ?thesis
      by (simp add: forEach_subscriber.simps [of k])
  next
    case True
    show ?thesis
    proof (cases "k < length (subscriber (stores w t))")
      case False
      with True "1.IH"(2) show ?thesis
        by (simp add: forEach_subscriber.simps [of k])
    next
      case k: True
      obtain e w' where hr: "Hook_rerender (subscriber (stores w t) ! k) eq w = (e, w')"
        by (cases "Hook_rerender (subscriber (stores w t) ! k) eq w")
      have hr': "Hook_rerender (subscriber (stores w t) ! k) eq (set_registry r w) =
                   (e, set_registry r w')"
        using hr by (simp add: Hook_rerender_registry)
      show ?thesis
      proof (cases e)
        case (Some err)
        with True k hr hr' show ?thesis
          by (simp add: forEach_subscriber.simps [of k])
      next
        case None
        with "1.IH"(1) [OF True k hr [symmetric]] have
          "forEach_subscriber (Suc k) len t eq (set_registry r w') =
             (fst (forEach_subscriber (Suc k) len t eq w'),
              set_registry r (snd (forEach_subscriber (Suc k) len t eq w')))"
          by simp
        with True k hr hr' None show ?thesis
          by (simp add: forEach_subscriber.simps [of k])
      qed
    qed
  qed
qed

lemma setStateAction_registry:
  "TableStore_setStateAction t action (set_registry r w) =
     (fst (TableStore_setStateAction t action w),
      set_registry r (snd (TableStore_setStateAction t action w)))"
  by (cases action)
     (simp_all add: TableStore_setStateAction_def TableStore_rerender_def
        SubscriberCollection_rerender_def Let_def set_registry_updates forEach_registry)

lemma array_slice_nat:
  "array_slice st (int off) (int off + int lim) = take lim (drop off st)"
proof (cases "off \<le> length st")
  case True
  then have "nat (min (int off + int lim) (int (length st)) - int off) = min lim (length st - off)"
    by arith
  moreover have "take (min lim (length st - off)) (drop off st) = take lim (drop off st)"
    by (simp add: min_def)
  moreover from True have "min (int off) (int (length st)) = int off"
    by simp
  ultimately show ?thesis
    by (simp add: array_slice_def Let_def)
next
  case False
  then show ?thesis by (simp add: array_slice_def Let_def min_def)
qed

lemma array_slice_nat0: "array_slice st 0 (int lim) = take lim st"
  using array_slice_nat [of st 0 lim] by simp

lemma mset_sort_insert: "mset (sort_insert cf x ys) = add_mset x (mset ys)"
  by (induction ys) simp_all

lemma set_sort_insert: "set (sort_insert cf x ys) = insert x (set ys)"
  by (induction ys) auto



lemma combine_never_throws: "\<exists>r. combinePredicates p1 p2 = Inr r"
  by (simp add: combinePredicates_def)


lemma run_reentry_store_fields:
  "state (stores (snd (run_reentry cs w)) t) = state (stores w t) \<and>
   equalityFn (stores (snd (run_reentry cs w)) t) = equalityFn (stores w t) \<and>
   reference (stores (snd (run_reentry cs w)) t) = reference (stores w t)"
  by (induction cs arbitrary: w)
     (auto simp: Hook_subscribe_def Hook_unsubscribe_def TableStore_subscribe_def
        TableStore_unsubscribe_def split: reentry.splits option.splits prod.splits)

lemma Hook_rerender_store_fields:
  "state (stores (snd (Hook_rerender h eq w)) t) = state (stores w t) \<and>
   equalityFn (stores (snd (Hook_rerender h eq w)) t) = equalityFn (stores w t) \<and>
   reference (stores (snd (Hook_rerender h eq w)) t) = reference (stores w t)"
proof -
  let ?w = "w\<lparr>visits := visits w @ [h]\<rparr>"
  obtain e w' where cb: "call_triggerRerender h ?w = (e, w')"
    by (cases "call_triggerRerender h ?w")
  have "state (stores w' t) = state (stores w t) \<and>
        equalityFn (stores w' t) = equalityFn (stores w t) \<and>
        reference (stores w' t) = reference (stores w t)"
    using run_reentry_store_fields [of "triggerRerender (hooks ?w h)" "?w\<lparr>fired := fired ?w @ [h]\<rparr>" t] cb
    by (simp add: call_triggerRerender_def)
  with cb show ?thesis
    by (cases e)
       (simp_all add: Hook_rerender_def Let_def set_oldState_def split: option.splits)
qed

lemma forEach_store_fields:
  "state (stores (snd (forEach_subscriber k len t eq w)) t') = state (stores w t') \<and>
   equalityFn (stores (snd (forEach_subscriber k len t eq w)) t') = equalityFn (stores w t') \<and>
   reference (stores (snd (forEach_subscriber k len t eq w)) t') = reference (stores w t')"
proof (induction k len t eq w rule: forEach_subscriber.induct)
  case (1 k len t eq w)
  show ?case
  proof (cases "k < len")
    case False
    then show ?thesis by (simp add: forEach_subscriber.simps [of k])
  next
    case True
    show ?thesis
    proof (cases "k < length (subscriber (stores w t))")
      case False
      with True "1.IH"(2) show ?thesis by (simp add: forEach_subscriber.simps [of k])
    next
      case k: True
      obtain e w' where hr: "Hook_rerender (subscriber (stores w t) ! k) eq w = (e, w')"
        by (cases "Hook_rerender (subscriber (stores w t) ! k) eq w")
      have w': "state (stores w' t') = state (stores w t') \<and>
                equalityFn (stores w' t') = equalityFn (stores w t') \<and>
                reference (stores w' t') = reference (stores w t')"
        using Hook_rerender_store_fields [of "subscriber (stores w t) ! k" eq w t'] hr by simp
      show ?thesis
      proof (cases e)
        case (Some err)
        with True k hr w' show ?thesis by (simp add: forEach_subscriber.simps [of k])
      next
        case None
        with "1.IH"(1) [OF True k hr [symmetric]] True k hr w' show ?thesis
          by (simp add: forEach_subscriber.simps [of k])
      qed
    qed
  qed
qed

lemma setStateAction_installs:
  "state (stores (snd (TableStore_setStateAction t action w)) t) =
     (case action of Updater f \<Rightarrow> f (state (stores w t)) | Value s \<Rightarrow> s) \<and>
   equalityFn (stores (snd (TableStore_setStateAction t action w)) t) = equalityFn (stores w t)"
  by (simp add: TableStore_setStateAction_def TableStore_rerender_def
        SubscriberCollection_rerender_def Let_def forEach_store_fields)

lemma setStateAction_plain:
  assumes "plain_subscribers t w"
  shows "TableStore_setStateAction t action w =
           (None,
            foldl (\<lambda>w' h. snd (Hook_rerender h (equalityFn (stores w t)) w'))
              (w\<lparr>stores := (stores w)(t := (stores w t)
                    \<lparr>state := (case action of Updater f \<Rightarrow> f (state (stores w t)) | Value s \<Rightarrow> s)\<rparr>)\<rparr>)
              (subscriber (stores w t)))"
    and "visits (snd (TableStore_setStateAction t action w)) = visits w @ subscriber (stores w t)"
    and "subscriber (stores (snd (TableStore_setStateAction t action w)) t) = subscriber (stores w t)"
proof -
  let ?new = "case action of Updater f \<Rightarrow> f (state (stores w t)) | Value s \<Rightarrow> s"
  let ?w = "w\<lparr>stores := (stores w)(t := (stores w t)\<lparr>state := ?new\<rparr>)\<rparr>"
  let ?eq = "equalityFn (stores w t)"
  have subs: "subscriber (stores ?w t) = subscriber (stores w t)" by simp
  have pl: "plain_subscribers t ?w"
    using assms by (simp add: plain_subscribers_def)
  have fe: "forEach_subscriber 0 (length (subscriber (stores ?w t))) t ?eq ?w =
          (None, foldl (\<lambda>w' h. snd (Hook_rerender h ?eq w')) ?w (drop 0 (subscriber (stores ?w t))))"
    by (rule forEach_plain [OF pl refl])
  show 1: "TableStore_setStateAction t action w =
      (None, foldl (\<lambda>w' h. snd (Hook_rerender h ?eq w')) ?w (subscriber (stores w t)))"
    using fe
    by (simp add: TableStore_setStateAction_def TableStore_rerender_def
          SubscriberCollection_rerender_def Let_def)
  have "\<forall>h \<in> set (subscriber (stores w t)).
          table (hooks ?w h) \<noteq> None \<and> triggerRerender (hooks ?w h) = []"
    using assms by (simp add: plain_subscribers_def)
  from foldl_rerender_plain [OF this, of ?eq]
  show "visits (snd (TableStore_setStateAction t action w)) = visits w @ subscriber (stores w t)"
    and "subscriber (stores (snd (TableStore_setStateAction t action w)) t) = subscriber (stores w t)"
    by (simp_all add: 1)
qed

lemma TableRegistry_delete_set_registry:
  "TableRegistry_delete tref w = set_registry ((registry w)(tref := None)) w"
  by (simp add: TableRegistry_delete_def set_registry_def)

lemma setStateAction_keeps_registry:
  "registry (snd (TableStore_setStateAction t action w)) = registry w"
proof -
  have "set_registry (registry w) w = w" by (simp add: set_registry_def)
  with setStateAction_registry [of t action "registry w" w]
  have "TableStore_setStateAction t action w =
          (fst (TableStore_setStateAction t action w),
           set_registry (registry w) (snd (TableStore_setStateAction t action w)))"
    by simp
  then have "snd (TableStore_setStateAction t action w) =
             set_registry (registry w) (snd (TableStore_setStateAction t action w))"
    by (metis snd_conv)
  then have "registry (snd (TableStore_setStateAction t action w)) =
             registry (set_registry (registry w) (snd (TableStore_setStateAction t action w)))"
    by simp
  then show ?thesis by simp
qed

lemma setStateAction_after_delete:
  "TableStore_setStateAction t action (TableRegistry_delete tref w) =
     (fst (TableStore_setStateAction t action w),
      TableRegistry_delete tref (snd (TableStore_setStateAction t action w)))"
  by (simp add: TableRegistry_delete_set_registry setStateAction_registry
        setStateAction_keeps_registry)

lemma indexOf_None: "indexOf xs x = None \<longleftrightarrow> x \<notin> set xs"
  by (induction xs) auto

lemma unsubscribe_remove1: "SubscriberCollection_unsubscribe h subs = remove1 h subs"
proof (induction subs)
  case Nil
  show ?case by (simp add: SubscriberCollection_unsubscribe_def)
next
  case (Cons y ys)
  show ?case
  proof (cases "y = h")
    case True
    then show ?thesis by (simp add: SubscriberCollection_unsubscribe_def splice1_def)
  next
    case False
    with Cons show ?thesis
      by (cases "indexOf ys h")
         (simp_all add: SubscriberCollection_unsubscribe_def splice1_def)
  qed
qed

lemma three_hooks_plain: "plain_subscribers 0 (three_hooks [])"
  by (simp add: plain_subscribers_def three_hooks_def world_defs Let_def)

lemma three_hooks_registry: "TableRegistry_get 0 (three_hooks cb) = Some 0"
  by (simp add: three_hooks_def world_defs Let_def)

lemma three_hooks_visits: "visits (three_hooks cb) = [] \<and> fired (three_hooks cb) = []"
  by (simp add: three_hooks_def world_defs Let_def)

lemma after_first_mutation:
  "table (hooks (snd (TableStore_setStateAction 0 (Value [1, 2]) (three_hooks []))) 0) = Some 0"
  "oldState (hooks (snd (TableStore_setStateAction 0 (Value [1, 2]) (three_hooks []))) 0) = Some [1, 2]"
  "queryFn (hooks (snd (TableStore_setStateAction 0 (Value [1, 2]) (three_hooks []))) 0) [1, 2] = [1, 2]"
  "state (stores (snd (TableStore_setStateAction 0 (Value [1, 2]) (three_hooks []))) 0) = [1, 2]"
  "fired (snd (TableStore_setStateAction 0 (Value [1, 2]) (three_hooks []))) = [0, 1, 2]"
  by (simp_all add: three_hooks_def world_defs Let_def TableStore_setStateAction_def
        TableStore_rerender_def SubscriberCollection_rerender_def forEach_subscriber.simps
        Hook_rerender_def call_triggerRerender_def set_oldState_def TableStore_executeQuery_def)

lemma twice_subscribed:
  "subscriber (stores (snd (Hook_subscribe 0 (three_hooks []))) 0) = [0, 1, 2, 0]"
  "plain_subscribers 0 (snd (Hook_subscribe 0 (three_hooks [])))"
  "visits (snd (Hook_subscribe 0 (three_hooks []))) = []"
  by (simp_all add: plain_subscribers_def three_hooks_def world_defs Let_def)

lemma createTable_result:
  assumes "createTable field keyOrEqualityFn w0 = (Inr c, w1)"
  shows "registry w1 (handle c) = Some (setState c)" and "cleanup c = handle c"
  using assms
  by (auto simp: createTable_def new_TableStore_def TableRegistry_set_def Let_def
        split: sum.splits)

subsection \<open>Consistent comparators\<close>

lemma cc_facts:
  assumes cc: "consistent_comparator cf xs"
    and a: "a \<in> set xs" and b: "b \<in> set xs" and c: "c \<in> set xs"
  shows "cf a a = 0" and "cf a b = 0 \<longrightarrow> cf b a = 0"
    and "cf a b = 0 \<and> cf b c = 0 \<longrightarrow> cf a c = 0"
    and "cf a b < 0 \<and> cf b c < 0 \<longrightarrow> cf a c < 0"
    and "cf a b > 0 \<and> cf b c > 0 \<longrightarrow> cf a c > 0"
proof -
  from cc a have A: "cf a a = 0 \<and>
        (\<forall>b \<in> set xs. (cf a b = 0 \<longrightarrow> cf b a = 0) \<and>
           (\<forall>c \<in> set xs.
              (cf a b = 0 \<and> cf b c = 0 \<longrightarrow> cf a c = 0) \<and>
              (cf a b < 0 \<and> cf b c < 0 \<longrightarrow> cf a c < 0) \<and>
              (cf a b > 0 \<and> cf b c > 0 \<longrightarrow> cf a c > 0)))"
    unfolding consistent_comparator_def by (rule bspec)
  then show "cf a a = 0" by (rule conjunct1)
  from A have "\<forall>b \<in> set xs. (cf a b = 0 \<longrightarrow> cf b a = 0) \<and>
           (\<forall>c \<in> set xs.
              (cf a b = 0 \<and> cf b c = 0 \<longrightarrow> cf a c = 0) \<and>
              (cf a b < 0 \<and> cf b c < 0 \<longrightarrow> cf a c < 0) \<and>
              (cf a b > 0 \<and> cf b c > 0 \<longrightarrow> cf a c > 0))"
    by (rule conjunct2)
  from this b have B: "(cf a b = 0 \<longrightarrow> cf b a = 0) \<and>
           (\<forall>c \<in> set xs.
              (cf a b = 0 \<and> cf b c = 0 \<longrightarrow> cf a c = 0) \<and>
              (cf a b < 0 \<and> cf b c < 0 \<longrightarrow> cf a c < 0) \<and>
              (cf a b > 0 \<and> cf b c > 0 \<longrightarrow> cf a c > 0))"
    by (rule bspec)
  then show "cf a b = 0 \<longrightarrow> cf b a = 0" by (rule conjunct1)
  from B have "\<forall>c \<in> set xs.
              (cf a b = 0 \<and> cf b c = 0 \<longrightarrow> cf a c = 0) \<and>
              (cf a b < 0 \<and> cf b c < 0 \<longrightarrow> cf a c < 0) \<and>
              (cf a b > 0 \<and> cf b c > 0 \<longrightarrow> cf a c > 0)"
    by (rule conjunct2)
  from this c have C: "(cf a b = 0 \<and> cf b c = 0 \<longrightarrow> cf a c = 0) \<and>
              (cf a b < 0 \<and> cf b c < 0 \<longrightarrow> cf a c < 0) \<and>
              (cf a b > 0 \<and> cf b c > 0 \<longrightarrow> cf a c > 0)"
    by (rule bspec)
  then show "cf a b = 0 \<and> cf b c = 0 \<longrightarrow> cf a c = 0"
    and "cf a b < 0 \<and> cf b c < 0 \<longrightarrow> cf a c < 0"
    and "cf a b > 0 \<and> cf b c > 0 \<longrightarrow> cf a c > 0"
    by (rule conjunct1, rule conjunct2 [THEN conjunct1], rule conjunct2 [THEN conjunct2])
qed

lemma cc_refl: "consistent_comparator cf xs \<Longrightarrow> a \<in> set xs \<Longrightarrow> cf a a = 0"
  by (rule cc_facts(1))

lemma cc_sym:
  "consistent_comparator cf xs \<Longrightarrow> a \<in> set xs \<Longrightarrow> b \<in> set xs \<Longrightarrow> cf a b = 0 \<Longrightarrow> cf b a = 0"
  using cc_facts(2) [of cf xs a b b] by simp

lemma cc_eq_trans:
  "consistent_comparator cf xs \<Longrightarrow> a \<in> set xs \<Longrightarrow> b \<in> set xs \<Longrightarrow> c \<in> set xs \<Longrightarrow>
   cf a b = 0 \<Longrightarrow> cf b c = 0 \<Longrightarrow> cf a c = 0"
  using cc_facts(3) [of cf xs a b c] by simp

lemma cc_lt_trans:
  "consistent_comparator cf xs \<Longrightarrow> a \<in> set xs \<Longrightarrow> b \<in> set xs \<Longrightarrow> c \<in> set xs \<Longrightarrow>
   cf a b < 0 \<Longrightarrow> cf b c < 0 \<Longrightarrow> cf a c < 0"
  using cc_facts(4) [of cf xs a b c] by simp

lemma cc_gt_trans:
  "consistent_comparator cf xs \<Longrightarrow> a \<in> set xs \<Longrightarrow> b \<in> set xs \<Longrightarrow> c \<in> set xs \<Longrightarrow>
   cf a b > 0 \<Longrightarrow> cf b c > 0 \<Longrightarrow> cf a c > 0"
  using cc_facts(5) [of cf xs a b c] by simp

lemma cc_flip_gt:
  assumes cc: "consistent_comparator cf xs" and a: "a \<in> set xs" and b: "b \<in> set xs"
    and gt: "cf a b > 0"
  shows "cf b a < 0"
proof (rule ccontr)
  assume "\<not> cf b a < 0"
  then consider "cf b a = 0" | "cf b a > 0" by linarith
  then show False
  proof cases
    case 1
    from cc_sym [OF cc b a 1] gt show False by simp
  next
    case 2
    from cc_gt_trans [OF cc a b a gt 2] cc_refl [OF cc a] show False by simp
  qed
qed

lemma cc_flip_lt:
  assumes cc: "consistent_comparator cf xs" and a: "a \<in> set xs" and b: "b \<in> set xs"
    and lt: "cf a b < 0"
  shows "cf b a > 0"
proof (rule ccontr)
  assume "\<not> cf b a > 0"
  then consider "cf b a = 0" | "cf b a < 0" by linarith
  then show False
  proof cases
    case 1
    from cc_sym [OF cc b a 1] lt show False by simp
  next
    case 2
    from cc_lt_trans [OF cc a b a lt 2] cc_refl [OF cc a] show False by simp
  qed
qed

lemma cc_total:
  assumes "consistent_comparator cf xs" "a \<in> set xs" "b \<in> set xs"
  shows "cf a b \<le> 0 \<or> cf b a \<le> 0"
proof (cases "cf a b \<le> 0")
  case True
  then show ?thesis by simp
next
  case False
  then have "cf a b > 0" by simp
  from cc_flip_gt [OF assms this] show ?thesis by simp
qed

lemma cc_antisym:
  assumes cc: "consistent_comparator cf xs" and a: "a \<in> set xs" and b: "b \<in> set xs"
    and ab: "cf a b \<le> 0" and ba: "cf b a \<le> 0"
  shows "cf a b = 0"
proof (rule ccontr)
  assume "cf a b \<noteq> 0"
  with ab have "cf a b < 0" by simp
  from cc_flip_lt [OF cc a b this] ba show False by simp
qed

lemma cc_le_trans:
  assumes cc: "consistent_comparator cf xs"
    and a: "a \<in> set xs" and b: "b \<in> set xs" and c: "c \<in> set xs"
    and ab: "cf a b \<le> 0" and bc: "cf b c \<le> 0"
  shows "cf a c \<le> 0"
proof (rule ccontr)
  assume "\<not> cf a c \<le> 0"
  then have ac: "cf a c > 0" by simp
  from cc_flip_gt [OF cc a c ac] have ca: "cf c a < 0" .
  show False
  proof (cases "cf a b < 0")
    case True
    from cc_lt_trans [OF cc c a b ca True] have "cf c b < 0" .
    from cc_flip_lt [OF cc c b this] bc show False by simp
  next
    case False
    with ab have ab0: "cf a b = 0" by simp
    show False
    proof (cases "cf b c < 0")
      case True
      from cc_lt_trans [OF cc b c a True ca] have "cf b a < 0" .
      with cc_sym [OF cc a b ab0] show False by simp
    next
      case False
      with bc have "cf b c = 0" by simp
      from cc_eq_trans [OF cc a b c ab0 this] ac show False by simp
    qed
  qed
qed

lemma cc_subset:
  assumes cc: "consistent_comparator cf xs" and sub: "set ys \<subseteq> set xs"
  shows "consistent_comparator cf ys"
proof -
  have mem: "\<And>a. a \<in> set ys \<Longrightarrow> a \<in> set xs" using sub by blast
  show ?thesis
    unfolding consistent_comparator_def
  proof (intro ballI conjI impI)
    fix a assume "a \<in> set ys"
    then show "cf a a = 0" by (rule cc_refl [OF cc mem])
  next
    fix a b assume "a \<in> set ys" "b \<in> set ys" "cf a b = 0"
    then show "cf b a = 0" using cc_sym [OF cc mem mem] by blast
  next
    fix a b c assume "a \<in> set ys" "b \<in> set ys" "c \<in> set ys" "cf a b = 0 \<and> cf b c = 0"
    then show "cf a c = 0" using cc_eq_trans [OF cc mem mem mem] by blast
  next
    fix a b c assume "a \<in> set ys" "b \<in> set ys" "c \<in> set ys" "cf a b < 0 \<and> cf b c < 0"
    then show "cf a c < 0" using cc_lt_trans [OF cc mem mem mem] by blast
  next
    fix a b c assume "a \<in> set ys" "b \<in> set ys" "c \<in> set ys" "0 < cf a b \<and> 0 < cf b c"
    then show "0 < cf a c" using cc_gt_trans [OF cc mem mem mem] by blast
  qed
qed

subsection \<open>The stable sort\<close>

lemma stable_sort_Cons: "stable_sort cf (x # xs) = sort_insert cf x (stable_sort cf xs)"
  by (simp add: stable_sort_def)

lemma mset_stable_sort: "mset (stable_sort cf xs) = mset xs"
  by (induction xs) (simp_all add: stable_sort_def mset_sort_insert)

lemma set_stable_sort: "set (stable_sort cf xs) = set xs"
  using mset_stable_sort [of cf xs] by (metis set_mset_mset)

lemma sorted_sort_insert:
  assumes cc: "consistent_comparator cf zs" and x: "x \<in> set zs" and sub: "set ys \<subseteq> set zs"
    and "sorted_wrt (\<lambda>a b. cf a b \<le> 0) ys"
  shows "sorted_wrt (\<lambda>a b. cf a b \<le> 0) (sort_insert cf x ys)"
  using sub assms(4)
proof (induction ys)
  case Nil
  show ?case by simp
next
  case (Cons y ys)
  from Cons.prems have y: "y \<in> set zs" and sub': "set ys \<subseteq> set zs"
    and tl: "sorted_wrt (\<lambda>a b. cf a b \<le> 0) ys"
    and hd: "\<forall>z \<in> set ys. cf y z \<le> 0" by simp_all
  show ?case
  proof (cases "cf x y \<le> 0")
    case True
    have "\<forall>z \<in> set ys. cf x z \<le> 0"
    proof
      fix z assume z: "z \<in> set ys"
      with sub' have "z \<in> set zs" by blast
      from cc_le_trans [OF cc x y this True] hd z show "cf x z \<le> 0" by simp
    qed
    with True Cons.prems show ?thesis by simp
  next
    case False
    with cc_total [OF cc x y] have "cf y x \<le> 0" by simp
    with False hd Cons.IH [OF sub' tl] show ?thesis by (simp add: set_sort_insert)
  qed
qed

lemma sorted_stable_sort:
  assumes "consistent_comparator cf xs"
  shows "sorted_wrt (\<lambda>a b. cf a b \<le> 0) (stable_sort cf xs)"
  using assms
proof (induction xs)
  case Nil
  show ?case by (simp add: stable_sort_def)
next
  case (Cons x xs)
  have cc': "consistent_comparator cf xs"
    by (rule cc_subset [OF Cons.prems]) auto
  have "sorted_wrt (\<lambda>a b. cf a b \<le> 0) (sort_insert cf x (stable_sort cf xs))"
    by (rule sorted_sort_insert [OF Cons.prems _ _ Cons.IH [OF cc']])
       (auto simp: set_stable_sort)
  then show ?case by (simp add: stable_sort_Cons)
qed

lemma filter_sort_insert:
  assumes "\<forall>y \<in> set ys. P x \<and> P y \<longrightarrow> cf x y \<le> 0"
  shows "filter P (sort_insert cf x ys) = filter P (x # ys)"
  using assms by (induction ys) simp_all

lemma filter_stable_sort:
  assumes "\<forall>a \<in> set xs. \<forall>b \<in> set xs. P a \<and> P b \<longrightarrow> cf a b \<le> 0"
  shows "filter P (stable_sort cf xs) = filter P xs"
  using assms
proof (induction xs)
  case Nil
  show ?case by (simp add: stable_sort_def)
next
  case (Cons x xs)
  have "filter P (sort_insert cf x (stable_sort cf xs)) = filter P (x # stable_sort cf xs)"
    by (rule filter_sort_insert) (use Cons.prems in \<open>simp add: set_stable_sort\<close>)
  moreover have "filter P (stable_sort cf xs) = filter P xs"
    by (rule Cons.IH) (use Cons.prems in simp)
  ultimately show ?case by (simp add: stable_sort_Cons)
qed

lemma stable_sort_is_stable_sorted:
  assumes cc: "consistent_comparator cf xs"
  shows "stable_sorted_by cf xs (stable_sort cf xs)"
  unfolding stable_sorted_by_def
proof (intro conjI ballI)
  show "mset (stable_sort cf xs) = mset xs" by (rule mset_stable_sort)
  show "sorted_wrt (\<lambda>a b. cf a b \<le> 0) (stable_sort cf xs)" by (rule sorted_stable_sort [OF cc])
  fix x assume x: "x \<in> set xs"
  show "filter (\<lambda>y. cf x y = 0) (stable_sort cf xs) = filter (\<lambda>y. cf x y = 0) xs"
  proof (rule filter_stable_sort, intro ballI impI)
    fix a b assume a: "a \<in> set xs" and b: "b \<in> set xs" and "cf x a = 0 \<and> cf x b = 0"
    then have "cf a x = 0" "cf x b = 0" using cc_sym [OF cc x a] by simp_all
    from cc_eq_trans [OF cc a x b this] show "cf a b \<le> 0" by simp
  qed
qed

text \<open>The stable sort is the only sequence that the specification's wording admits.\<close>

lemma stable_sorted_unique_aux:
  assumes cc: "consistent_comparator cf ys"
    and "mset ys = mset zs"
    and "sorted_wrt (\<lambda>a b. cf a b \<le> 0) ys" and "sorted_wrt (\<lambda>a b. cf a b \<le> 0) zs"
    and "\<forall>x \<in> set ys. filter (\<lambda>y. cf x y = 0) ys = filter (\<lambda>y. cf x y = 0) zs"
  shows "ys = zs"
  using assms
proof (induction ys arbitrary: zs)
  case Nil
  then show ?case by simp
next
  case (Cons y ys)
  from Cons.prems(2) obtain z zs' where zs: "zs = z # zs'"
    by (cases zs) auto
  note cc = Cons.prems(1)
  have sets: "set (z # zs') = set (y # ys)"
    using Cons.prems(2) zs by (metis set_mset_mset)
  have yin: "y \<in> set (y # ys)" by simp
  have zin: "z \<in> set (y # ys)" using sets by auto
  have yz: "cf y z \<le> 0"
  proof (cases "z = y")
    case True
    with cc_refl [OF cc yin] show ?thesis by simp
  next
    case False
    with zin have "z \<in> set ys" by simp
    with Cons.prems(3) show ?thesis by simp
  qed
  have zy: "cf z y \<le> 0"
  proof (cases "z = y")
    case True
    with cc_refl [OF cc yin] show ?thesis by simp
  next
    case False
    from sets have "y \<in> set (z # zs')" by simp
    with False have "y \<in> set zs'" by auto
    with Cons.prems(4) zs show ?thesis by simp
  qed
  have yz0: "cf y z = 0" by (rule cc_antisym [OF cc yin zin yz zy])
  have yy0: "cf y y = 0" by (rule cc_refl [OF cc yin])
  from Cons.prems(5) [rule_format, OF yin] zs yz0 yy0
  have eq: "z = y" by simp
  have cc': "consistent_comparator cf ys"
    by (rule cc_subset [OF cc]) auto
  have "ys = zs'"
  proof (rule Cons.IH [OF cc'])
    show "mset ys = mset zs'" using Cons.prems(2) zs eq by simp
    show "sorted_wrt (\<lambda>a b. cf a b \<le> 0) ys" using Cons.prems(3) by simp
    show "sorted_wrt (\<lambda>a b. cf a b \<le> 0) zs'" using Cons.prems(4) zs by simp
    show "\<forall>x \<in> set ys. filter (\<lambda>y. cf x y = 0) ys = filter (\<lambda>y. cf x y = 0) zs'"
    proof
      fix x assume "x \<in> set ys"
      then have "x \<in> set (y # ys)" by simp
      from Cons.prems(5) [rule_format, OF this] zs eq
      show "filter (\<lambda>y. cf x y = 0) ys = filter (\<lambda>y. cf x y = 0) zs'"
        by (simp split: if_splits)
    qed
  qed
  with zs eq show ?case by simp
qed

lemma stable_sorted_unique:
  assumes cc: "consistent_comparator cf xs"
    and ys: "stable_sorted_by cf xs ys" and zs: "stable_sorted_by cf xs zs"
  shows "ys = zs"
proof (rule stable_sorted_unique_aux)
  have sy: "set ys = set xs" using ys by (metis stable_sorted_by_def set_mset_mset)
  show "consistent_comparator cf ys" by (rule cc_subset [OF cc]) (simp add: sy)
  show "mset ys = mset zs" using ys zs by (simp add: stable_sorted_by_def)
  show "sorted_wrt (\<lambda>a b. cf a b \<le> 0) ys" using ys by (simp add: stable_sorted_by_def)
  show "sorted_wrt (\<lambda>a b. cf a b \<le> 0) zs" using zs by (simp add: stable_sorted_by_def)
  show "\<forall>x \<in> set ys. filter (\<lambda>y. cf x y = 0) ys = filter (\<lambda>y. cf x y = 0) zs"
    using ys zs sy by (simp add: stable_sorted_by_def)
qed

subsection \<open>The query builder\<close>

lemma new_array_facts:
  "fst (new_array xs H) = next_array H"
  "cells (snd (new_array xs H)) a = (if a = next_array H then xs else cells H a)"
  "next_array (snd (new_array xs H)) = Suc (next_array H)"
  by (simp_all add: new_array_def)

lemma length_stable_sort: "length (stable_sort cf xs) = length xs"
  using mset_stable_sort [of cf xs] by (metis size_mset)

lemma filter_sort_result:
  assumes alloc: "state0 < next_array H"
    and cons: "case order of None \<Rightarrow> True
               | Some ord \<Rightarrow> consistent_comparator (SortCompare undef ord)
                   (case wher of None \<Rightarrow> cells H state0 | Some p \<Rightarrow> filter p (cells H state0))"
  shows "\<exists>st H1. filter_sort undef wher order state0 H = Some (st, H1) \<and>
           cells H1 st =
             (case order of
                None \<Rightarrow> (case wher of None \<Rightarrow> cells H state0 | Some p \<Rightarrow> filter p (cells H state0))
              | Some ord \<Rightarrow> stable_sort (SortCompare undef ord)
                  (case wher of None \<Rightarrow> cells H state0 | Some p \<Rightarrow> filter p (cells H state0))) \<and>
           (\<forall>a < next_array H. cells H1 a = cells H a) \<and>
           st < next_array H1"
proof (cases wher)
  case None
  show ?thesis
  proof (cases order)
    case ordNone: None
    with None alloc show ?thesis by (simp add: filter_sort_def)
  next
    case (Some ord)
    with None cons alloc show ?thesis
      by (simp add: filter_sort_def Array_spread_def Array_sort_def new_array_def)
  qed
next
  case (Some p)
  show ?thesis
  proof (cases order)
    case None
    with Some alloc show ?thesis
      by (simp add: filter_sort_def Array_filter_def new_array_def)
  next
    case ordSome: (Some ord)
    with Some cons alloc show ?thesis
      by (simp add: filter_sort_def Array_filter_def Array_sort_def new_array_def)
  qed
qed

lemma buildQuery_spec_unique:
  assumes cons: "case order of None \<Rightarrow> True
               | Some ord \<Rightarrow> consistent_comparator (SortCompare undef ord)
                   (case wher of None \<Rightarrow> xs | Some p \<Rightarrow> filter p xs)"
    and ys: "buildQuery_spec undef wher order offset limit xs ys"
    and zs: "buildQuery_spec undef wher order offset limit xs zs"
  shows "ys = zs"
proof (cases order)
  case None
  with ys zs show ?thesis by (auto simp: buildQuery_spec_def)
next
  case (Some ord)
  let ?f = "case wher of None \<Rightarrow> xs | Some p \<Rightarrow> filter p xs"
  let ?off = "case offset of None \<Rightarrow> 0 | Some n \<Rightarrow> n"
  from ys Some obtain s where s: "stable_sorted_by (SortCompare undef ord) ?f s"
    and ys': "ys = take (case limit of None \<Rightarrow> length s - ?off | Some n \<Rightarrow> n) (drop ?off s)"
    by (auto simp: buildQuery_spec_def)
  from zs Some obtain s' where s': "stable_sorted_by (SortCompare undef ord) ?f s'"
    and zs': "zs = take (case limit of None \<Rightarrow> length s' - ?off | Some n \<Rightarrow> n) (drop ?off s')"
    by (auto simp: buildQuery_spec_def)
  from cons Some have "consistent_comparator (SortCompare undef ord) ?f" by simp
  from stable_sorted_unique [OF this s s'] have eq: "s = s'" .
  show ?thesis unfolding ys' zs' eq by (rule refl)
qed

lemma createDefaultQueryFunction_cells:
  assumes fs: "filter_sort undef wher order state0 H = Some (st, H1)" and st: "st < next_array H1"
  shows "\<exists>r H'. createDefaultQueryFunction undef wher order offset limit state0 H = Some (r, H') \<and>
           cells H' r =
             (let off = (case offset of None \<Rightarrow> 0 | Some v \<Rightarrow> v);
                  lim = (case limit of None \<Rightarrow> int (length (cells H1 st)) | Some v \<Rightarrow> v)
              in if off > 0 \<or> lim < int (length (cells H1 st))
                 then array_slice (cells H1 st) off (off + lim) else cells H1 st) \<and>
           (\<forall>a < next_array H1. r \<noteq> st \<longrightarrow> cells H' a = cells H1 a) \<and>
           (r = st \<longrightarrow> H' = H1)"
  using st by (auto simp: createDefaultQueryFunction_def fs Let_def Array_slice_def new_array_def)

lemma slice_value:
  "(let off = (case map_option int offset of None \<Rightarrow> 0 | Some v \<Rightarrow> v);
        lim = (case map_option int limit of None \<Rightarrow> int (length s) | Some v \<Rightarrow> v)
    in if off > 0 \<or> lim < int (length s) then array_slice s off (off + lim) else s) =
   take (case limit of None \<Rightarrow> length s - (case offset of None \<Rightarrow> 0 | Some n \<Rightarrow> n) | Some n \<Rightarrow> n)
     (drop (case offset of None \<Rightarrow> 0 | Some n \<Rightarrow> n) s)"
  by (cases offset; cases limit) (simp_all add: array_slice_nat array_slice_nat0 Let_def)

lemma filter_sort_next_array:
  "filter_sort undef wher order state0 H = Some (st, H1) \<Longrightarrow> next_array H \<le> next_array H1"
  by (auto simp: filter_sort_def Array_spread_def Array_filter_def Array_sort_def new_array_def
        split: option.splits if_splits)

lemma createDefaultQueryFunction_result:
  assumes alloc: "state0 < next_array H"
    and cons: "case order of None \<Rightarrow> True
               | Some ord \<Rightarrow> consistent_comparator (SortCompare undef ord)
                   (case wher of None \<Rightarrow> cells H state0 | Some p \<Rightarrow> filter p (cells H state0))"
  shows "\<exists>r H'. createDefaultQueryFunction undef wher order (map_option int offset)
                   (map_option int limit) state0 H = Some (r, H') \<and>
           buildQuery_spec undef wher order offset limit (cells H state0) (cells H' r) \<and>
           (\<forall>a < next_array H. cells H' a = cells H a)"
proof -
  let ?f = "case wher of None \<Rightarrow> cells H state0 | Some p \<Rightarrow> filter p (cells H state0)"
  let ?s = "case order of None \<Rightarrow> ?f | Some ord \<Rightarrow> stable_sort (SortCompare undef ord) ?f"
  let ?off = "case offset of None \<Rightarrow> 0 | Some n \<Rightarrow> n"
  let ?lim = "case limit of None \<Rightarrow> length ?s - ?off | Some n \<Rightarrow> n"
  from filter_sort_result [OF alloc cons] obtain st H1 where
    fs: "filter_sort undef wher order state0 H = Some (st, H1)"
    and cs: "cells H1 st = ?s"
    and old: "\<forall>a < next_array H. cells H1 a = cells H a"
    and st: "st < next_array H1"
    by blast
  have spec_s: "case order of None \<Rightarrow> ?s = ?f
                | Some ord \<Rightarrow> stable_sorted_by (SortCompare undef ord) ?f ?s"
    using cons by (cases order) (simp_all add: stable_sort_is_stable_sorted)
  have spec: "buildQuery_spec undef wher order offset limit (cells H state0) (take ?lim (drop ?off ?s))"
    unfolding buildQuery_spec_def using spec_s by (intro exI [of _ ?s]) simp
  have le: "next_array H \<le> next_array H1" by (rule filter_sort_next_array [OF fs])
  from createDefaultQueryFunction_cells [OF fs st, of "map_option int offset" "map_option int limit"]
  obtain r H' where
    run: "createDefaultQueryFunction undef wher order (map_option int offset)
            (map_option int limit) state0 H = Some (r, H')"
    and val: "cells H' r =
             (let off = (case map_option int offset of None \<Rightarrow> 0 | Some v \<Rightarrow> v);
                  lim = (case map_option int limit of None \<Rightarrow> int (length (cells H1 st)) | Some v \<Rightarrow> v)
              in if off > 0 \<or> lim < int (length (cells H1 st))
                 then array_slice (cells H1 st) off (off + lim) else cells H1 st)"
    and keep: "\<forall>a < next_array H1. r \<noteq> st \<longrightarrow> cells H' a = cells H1 a"
    and same: "r = st \<longrightarrow> H' = H1"
    by blast
  have "cells H' r = take ?lim (drop ?off ?s)"
    unfolding val slice_value cs by (rule refl)
  moreover have "\<forall>a < next_array H. cells H' a = cells H a"
  proof (intro allI impI)
    fix a assume a: "a < next_array H"
    with le have "a < next_array H1" by simp
    with keep same have "cells H' a = cells H1 a" by (cases "r = st") simp_all
    with old a show "cells H' a = cells H a" by simp
  qed
  ultimately show ?thesis using run spec by simp
qed

lemma createDefaultQueryFunction_fast_path:
  assumes alloc: "state0 < next_array H"
    and cons: "case order of None \<Rightarrow> True
               | Some ord \<Rightarrow> consistent_comparator (SortCompare undef ord)
                   (case wher of None \<Rightarrow> cells H state0 | Some p \<Rightarrow> filter p (cells H state0))"
    and off: "offset = None \<or> offset = Some 0"
    and lim: "limit = None \<or> (\<exists>l. limit = Some l \<and>
                int (length (case wher of None \<Rightarrow> cells H state0 | Some p \<Rightarrow> filter p (cells H state0))) \<le> l)"
  shows "\<exists>st H1. filter_sort undef wher order state0 H = Some (st, H1) \<and>
           createDefaultQueryFunction undef wher order offset limit state0 H = Some (st, H1)"
proof -
  from filter_sort_result [OF alloc cons] obtain st H1 where
    fs: "filter_sort undef wher order state0 H = Some (st, H1)"
    and cs: "cells H1 st =
             (case order of
                None \<Rightarrow> (case wher of None \<Rightarrow> cells H state0 | Some p \<Rightarrow> filter p (cells H state0))
              | Some ord \<Rightarrow> stable_sort (SortCompare undef ord)
                  (case wher of None \<Rightarrow> cells H state0 | Some p \<Rightarrow> filter p (cells H state0)))"
    by blast
  have len: "length (cells H1 st) =
      length (case wher of None \<Rightarrow> cells H state0 | Some p \<Rightarrow> filter p (cells H state0))"
    using cs by (cases order) (simp_all add: length_stable_sort)
  from off lim len have "createDefaultQueryFunction undef wher order offset limit state0 H = Some (st, H1)"
    by (auto simp: createDefaultQueryFunction_def fs Let_def)
  with fs show ?thesis by blast
qed

lemma SortCompare_defined: "\<not> undef x \<Longrightarrow> \<not> undef y \<Longrightarrow> SortCompare undef ord x y = ord x y"
  by (simp add: SortCompare_def)

lemma query_example:
  "map_option (\<lambda>(r, H'). (r, cells H' r, cells H' 0))
     (createDefaultQueryFunction (\<lambda>_. False) (Some snd) (Some (\<lambda>a b. fst a - fst b)) (Some 1) (Some 2) 0
        \<lparr>cells = (\<lambda>_. [])(0 := [(3::int, True), (1, True), (5, False), (2, True)]), next_array = 1\<rparr>) =
   Some (2, [(2, True), (3, True)], [(3, True), (1, True), (5, False), (2, True)])"
  by (simp add: createDefaultQueryFunction_def filter_sort_def Array_filter_def Array_sort_def
        Array_slice_def new_array_def consistent_comparator_def SortCompare_def stable_sort_def
        array_slice_def Let_def)

lemma bound_late:
  "Hook_rerender 3 (\<lambda>a b. a = b)
     (snd (useQuery_new_Hook 0 (\<lambda>array. array) []
        (snd (TableStore_setStateAction 0 (Value [1, 2]) (three_hooks []))))) =
   (None, snd (Hook_rerender 3 (\<lambda>a b. a = b)
     (snd (useQuery_new_Hook 0 (\<lambda>array. array) []
        (snd (TableStore_setStateAction 0 (Value [1, 2]) (three_hooks [])))))))"
  "fired (snd (Hook_rerender 3 (\<lambda>a b. a = b)
     (snd (useQuery_new_Hook 0 (\<lambda>array. array) []
        (snd (TableStore_setStateAction 0 (Value [1, 2]) (three_hooks []))))))) = [0, 1, 2, 3]"
  "state (stores (snd (useQuery_new_Hook 0 (\<lambda>array. array) []
        (snd (TableStore_setStateAction 0 (Value [1, 2]) (three_hooks []))))) 0) = [1, 2]"
  "queryFn (hooks (snd (useQuery_new_Hook 0 (\<lambda>array. array) []
        (snd (TableStore_setStateAction 0 (Value [1, 2]) (three_hooks []))))) 3) = (\<lambda>array. array)"
  "fired (snd (Hook_rerender 3 (\<lambda>a b. False)
     (snd (Hook_rerender 3 (\<lambda>a b. a = b)
       (snd (useQuery_new_Hook 0 (\<lambda>array. array) []
          (snd (TableStore_setStateAction 0 (Value [1, 2]) (three_hooks []))))))))) = [0, 1, 2, 3, 3]"
  "table (hooks (snd (useQuery_new_Hook 0 (\<lambda>array. array) []
        (snd (TableStore_setStateAction 0 (Value [1, 2]) (three_hooks []))))) 3) = Some 0"
  by (simp_all add: three_hooks_def world_defs Let_def TableStore_setStateAction_def
        TableStore_rerender_def SubscriberCollection_rerender_def forEach_subscriber.simps
        Hook_rerender_def call_triggerRerender_def set_oldState_def TableStore_executeQuery_def
        arrayEquals_def arrayEquals_probes_def arrayEquals_loop.simps)

lemma TableRegistry_delete_frame:
  "registry (TableRegistry_delete tref w) = (registry w)(tref := None)"
  "stores (TableRegistry_delete tref w) = stores w"
  "hooks (TableRegistry_delete tref w) = hooks w"
  "next_store (TableRegistry_delete tref w) = next_store w"
  "next_hook (TableRegistry_delete tref w) = next_hook w"
  "next_symbol (TableRegistry_delete tref w) = next_symbol w"
  "visits (TableRegistry_delete tref w) = visits w"
  "fired (TableRegistry_delete tref w) = fired w"
  by (simp_all add: TableRegistry_delete_def)

section \<open>The claims\<close>

text \<open>
  C1. The specification asks that an observer may call its own \<open>unsubscribe\<close> from inside
  its rerender callback without the fan-out crashing and without any other observer
  subscribed at the start being skipped or visited twice. The code does not crash, but
  it skips the observer that follows in the array: with hooks 0, 1, 2 subscribed in
  that order and hook 0 unsubscribing itself in its callback, one mutation visits hooks 0
  and 2 only. \<open>splice\<close> moves hook 1 down to index 0 while \<open>forEach\<close> goes on to index 1.
\<close>

theorem reentrant_unsubscribe_skips_next:
  "subscriber (stores (three_hooks [CallUnsubscribe 0]) 0) = [0, 1, 2] \<and>
   fst (TableStore_setStateAction 0 (Value [7]) (three_hooks [CallUnsubscribe 0])) = None \<and>
   visits (snd (TableStore_setStateAction 0 (Value [7]) (three_hooks [CallUnsubscribe 0]))) = [0, 2] \<and>
   subscriber (stores (snd (TableStore_setStateAction 0 (Value [7])
      (three_hooks [CallUnsubscribe 0]))) 0) = [1, 2]"
  by (simp add: three_hooks_def world_defs Let_def TableStore_setStateAction_def
        TableStore_rerender_def SubscriberCollection_rerender_def forEach_subscriber.simps
        Hook_rerender_def call_triggerRerender_def set_oldState_def TableStore_executeQuery_def)

text \<open>
  C2. A notification of a hook bound to a store calls the consumer callback exactly once
  when there is no last result, or the lengths differ, or some position holds two elements
  that the equality function tells apart, and not at all otherwise. The comparison calls
  the equality function at the indices in increasing order and stops at the first
  mismatch: it is called at \<open>0, ..., m\<close> for the least mismatching index \<open>m\<close>, at every
  index when there is none, and never when the lengths differ.
\<close>

theorem Hook_rerender_fires_iff_changed:
  assumes "table (hooks w h) = Some t"
  shows "fired (snd (Hook_rerender h eq w)) =
           fired w @ (if result_changed (oldState (hooks w h))
                           (queryFn (hooks w h) (state (stores w t))) eq
                      then [h] else []) \<and>
         arrayEquals old new eq = (\<not> result_changed (Some old) new eq) \<and>
         arrayEquals_probes old new eq =
           (if length old \<noteq> length new then (False, [])
            else if \<exists>i<length old. \<not> eq (old ! i) (new ! i)
                 then (False, [0 ..< Suc (LEAST i. i < length old \<and> \<not> eq (old ! i) (new ! i))])
                 else (True, [0 ..< length old]))"
proof (intro conjI)
  show "fired (snd (Hook_rerender h eq w)) =
           fired w @ (if result_changed (oldState (hooks w h))
                           (queryFn (hooks w h) (state (stores w t))) eq
                      then [h] else [])"
    using assms by (rule Hook_rerender_fired)
  show "arrayEquals old new eq = (\<not> result_changed (Some old) new eq)"
    by (auto simp: arrayEquals_iff result_changed_def)
  show "arrayEquals_probes old new eq =
           (if length old \<noteq> length new then (False, [])
            else if \<exists>i<length old. \<not> eq (old ! i) (new ! i)
                 then (False, [0 ..< Suc (LEAST i. i < length old \<and> \<not> eq (old ! i) (new ! i))])
                 else (True, [0 ..< length old]))"
    by (rule probes_shape)
qed

theorem Hook_rerender_fires_iff_changed_witness:
  "table (hooks (snd (TableStore_setStateAction 0 (Value [1, 2]) (three_hooks []))) 0) = Some 0 \<and>
   fired (snd (Hook_rerender 0 (\<lambda>a b. a = b)
      (snd (TableStore_setStateAction 0 (Value [1, 2]) (three_hooks []))))) = [0, 1, 2] \<and>
   arrayEquals_probes [1, 5, 3] [1, 2, 4] (\<lambda>a b. a = (b::int)) = (False, [0, 1])"
proof -
  let ?w = "snd (TableStore_setStateAction 0 (Value [1, 2]) (three_hooks []))"
  define A B :: "int list" where "A = [1, 5, 3]" and "B = [1, 2, 4]"
  have t: "table (hooks ?w 0) = Some 0" by (rule after_first_mutation)
  have len: "length A = length B" by (simp add: A_def B_def)
  have ex: "\<exists>i<length A. A ! i \<noteq> B ! i"
    by (rule exI [of _ 1]) (simp add: A_def B_def)
  have least: "(LEAST i. i < length A \<and> A ! i \<noteq> B ! i) = 1"
    by (rule Least_equality) (auto simp: A_def B_def less_Suc_eq)
  note inst = Hook_rerender_fires_iff_changed [OF t, of "\<lambda>a b. a = b" A B]
  from inst have "fired (snd (Hook_rerender 0 (\<lambda>a b. a = b) ?w)) = [0, 1, 2]"
    by (simp add: after_first_mutation result_changed_def)
  moreover from inst have "arrayEquals_probes A B (\<lambda>a b. a = b) = (False, [0 ..< Suc 1])"
    using len ex least by simp
  then have "arrayEquals_probes [1, 5, 3] [1, 2, 4] (\<lambda>a b. a = (b::int)) = (False, [0, 1])"
    by (simp add: A_def B_def upt_rec)
  ultimately show ?thesis using t by simp
qed

text \<open>
  C3. A notification that completes leaves the newly computed result as the hook's last
  result, whatever the comparison said. So a second notification right after it, with the
  table state and the query function as they were and a reflexive equality policy,
  completes without calling the rerender callback.
\<close>

theorem Hook_rerender_twice:
  assumes "Hook_rerender h eq w = (None, w1)" and "\<forall>x. eq' x x"
  shows "(\<exists>t. table (hooks w h) = Some t \<and>
              oldState (hooks w1 h) = Some (queryFn (hooks w h) (state (stores w t)))) \<and>
         fst (Hook_rerender h eq' w1) = None \<and>
         fired (snd (Hook_rerender h eq' w1)) = fired w1"
proof -
  from Hook_rerender_oldState [OF assms(1)] obtain t where
    t: "table (hooks w h) = Some t" "table (hooks w1 h) = Some t"
       "queryFn (hooks w1 h) = queryFn (hooks w h)"
       "state (stores w1 t) = state (stores w t)"
       "oldState (hooks w1 h) = Some (queryFn (hooks w h) (state (stores w t)))"
    by blast
  have "oldState (hooks w1 h) = Some (queryFn (hooks w1 h) (state (stores w1 t)))"
    using t by simp
  from Hook_rerender_quiet [where eq = eq', OF t(2) this assms(2)] t(1) t(5)
  show ?thesis by blast
qed

theorem Hook_rerender_twice_witness:
  "fired (snd (Hook_rerender 3 (\<lambda>a b. a = b)
     (snd (useQuery_new_Hook 0 (\<lambda>array. array) []
        (snd (TableStore_setStateAction 0 (Value [1, 2]) (three_hooks []))))))) = [0, 1, 2, 3] \<and>
   oldState (hooks (snd (Hook_rerender 3 (\<lambda>a b. a = b)
     (snd (useQuery_new_Hook 0 (\<lambda>array. array) []
        (snd (TableStore_setStateAction 0 (Value [1, 2]) (three_hooks []))))))) 3) = Some [1, 2] \<and>
   fired (snd (Hook_rerender 3 (\<lambda>a b. a = b)
     (snd (Hook_rerender 3 (\<lambda>a b. a = b)
       (snd (useQuery_new_Hook 0 (\<lambda>array. array) []
          (snd (TableStore_setStateAction 0 (Value [1, 2]) (three_hooks []))))))))) = [0, 1, 2, 3] \<and>
   fired (snd (Hook_rerender 3 (\<lambda>a b. False)
     (snd (Hook_rerender 3 (\<lambda>a b. a = b)
       (snd (useQuery_new_Hook 0 (\<lambda>array. array) []
          (snd (TableStore_setStateAction 0 (Value [1, 2]) (three_hooks []))))))))) = [0, 1, 2, 3, 3]"
proof -
  let ?w = "snd (useQuery_new_Hook 0 (\<lambda>array. array) []
        (snd (TableStore_setStateAction 0 (Value [1, 2]) (three_hooks []))))"
  let ?w1 = "snd (Hook_rerender 3 (\<lambda>a b. a = b) ?w)"
  have refl: "\<forall>x::int. (\<lambda>a b. a = b) x x" by simp
  note inst = Hook_rerender_twice [where eq' = "\<lambda>a b. a = b", OF bound_late(1) refl]
  from inst obtain t where t: "table (hooks ?w 3) = Some t"
    and old: "oldState (hooks ?w1 3) = Some (queryFn (hooks ?w 3) (state (stores ?w t)))"
    by blast
  have "t = 0" using t by (simp add: bound_late(6))
  with old have "oldState (hooks ?w1 3) = Some [1, 2]"
    by (simp add: bound_late(3,4))
  moreover from inst have "fired (snd (Hook_rerender 3 (\<lambda>a b. a = b) ?w1)) = fired ?w1"
    by blast
  ultimately show ?thesis
    using bound_late(2,5) by simp
qed

text \<open>
  C4. The input is an array that exists, and offset and limit are natural numbers or
  absent; the comparator, if present, is a consistent comparator for the elements left by
  the filter, the case in which ECMAScript fixes what \<open>sort\<close> returns. Then the query
  function returns an array holding what the specification describes, and nothing else
  fits that description: the elements satisfying \<open>where\<close> in their order (all when it is
  absent), stable-sorted ascending by the comparator's sign when \<open>order\<close> is present,
  then \<open>offset\<close> elements skipped (default 0) and \<open>limit\<close> taken (default: what remains).
  No array that existed before is changed, so the input is not. With offset 0 or absent
  and a limit absent or at least the length after filtering, the result is the very array
  that held the filtered and sorted sequence, in the same heap: \<open>slice\<close> is not called,
  and with neither \<open>where\<close> nor \<open>order\<close> that array is the input itself. On elements that
  are not \<open>undefined\<close> the comparison is the given comparator. The example of the
  specification yields a new array with the records \<open>n = 2\<close> and \<open>n = 3\<close>.
\<close>

theorem createDefaultQueryFunction_meets_spec:
  assumes alloc: "state0 < next_array H"
    and cons: "case order of None \<Rightarrow> True
               | Some ord \<Rightarrow> consistent_comparator (SortCompare undef ord)
                   (case wher of None \<Rightarrow> cells H state0 | Some p \<Rightarrow> filter p (cells H state0))"
  shows "(\<exists>r H'. createDefaultQueryFunction undef wher order (map_option int offset)
                    (map_option int limit) state0 H = Some (r, H') \<and>
            buildQuery_spec undef wher order offset limit (cells H state0) (cells H' r) \<and>
            (\<forall>ys. buildQuery_spec undef wher order offset limit (cells H state0) ys \<longrightarrow>
                  ys = cells H' r) \<and>
            (\<forall>a < next_array H. cells H' a = cells H a)) \<and>
         ((offset' = None \<or> offset' = Some 0) \<and>
          (limit' = None \<or>
             (\<exists>l. limit' = Some l \<and>
                  int (length (case wher of None \<Rightarrow> cells H state0
                                | Some p \<Rightarrow> filter p (cells H state0))) \<le> l)) \<longrightarrow>
            (\<exists>st H1. filter_sort undef wher order state0 H = Some (st, H1) \<and>
               createDefaultQueryFunction undef wher order offset' limit' state0 H = Some (st, H1))) \<and>
         filter_sort undef None None state0 H = Some (state0, H) \<and>
         (\<not> undef x \<and> \<not> undef y \<longrightarrow> SortCompare undef ord x y = ord x y) \<and>
         map_option (\<lambda>(r, H'). (r, cells H' r, cells H' 0))
           (createDefaultQueryFunction (\<lambda>_. False) (Some snd) (Some (\<lambda>a b. fst a - fst b))
              (Some 1) (Some 2) 0
              \<lparr>cells = (\<lambda>_. [])(0 := [(3::int, True), (1, True), (5, False), (2, True)]),
               next_array = 1\<rparr>) =
           Some (2, [(2, True), (3, True)], [(3, True), (1, True), (5, False), (2, True)])"
proof (intro conjI impI)
  from createDefaultQueryFunction_result [OF alloc cons, of offset limit] obtain r H' where
    run: "createDefaultQueryFunction undef wher order (map_option int offset)
            (map_option int limit) state0 H = Some (r, H')"
    and spec: "buildQuery_spec undef wher order offset limit (cells H state0) (cells H' r)"
    and old: "\<forall>a < next_array H. cells H' a = cells H a"
    by blast
  have "\<forall>ys. buildQuery_spec undef wher order offset limit (cells H state0) ys \<longrightarrow> ys = cells H' r"
    using buildQuery_spec_unique [OF cons _ spec] by blast
  with run spec old
  show "\<exists>r H'. createDefaultQueryFunction undef wher order (map_option int offset)
                    (map_option int limit) state0 H = Some (r, H') \<and>
            buildQuery_spec undef wher order offset limit (cells H state0) (cells H' r) \<and>
            (\<forall>ys. buildQuery_spec undef wher order offset limit (cells H state0) ys \<longrightarrow>
                  ys = cells H' r) \<and>
            (\<forall>a < next_array H. cells H' a = cells H a)"
    by blast
  show "filter_sort undef None None state0 H = Some (state0, H)"
    by (simp add: filter_sort_def)
  show "SortCompare undef ord x y = ord x y" if "\<not> undef x \<and> \<not> undef y"
    using that by (simp add: SortCompare_defined)
  show "map_option (\<lambda>(r, H'). (r, cells H' r, cells H' 0))
           (createDefaultQueryFunction (\<lambda>_. False) (Some snd) (Some (\<lambda>a b. fst a - fst b))
              (Some 1) (Some 2) 0
              \<lparr>cells = (\<lambda>_. [])(0 := [(3::int, True), (1, True), (5, False), (2, True)]),
               next_array = 1\<rparr>) =
           Some (2, [(2, True), (3, True)], [(3, True), (1, True), (5, False), (2, True)])"
    by (rule query_example)
next
  assume h: "(offset' = None \<or> offset' = Some 0) \<and>
          (limit' = None \<or>
             (\<exists>l. limit' = Some l \<and>
                  int (length (case wher of None \<Rightarrow> cells H state0
                                | Some p \<Rightarrow> filter p (cells H state0))) \<le> l))"
  show "\<exists>st H1. filter_sort undef wher order state0 H = Some (st, H1) \<and>
               createDefaultQueryFunction undef wher order offset' limit' state0 H = Some (st, H1)"
    by (rule createDefaultQueryFunction_fast_path [OF alloc cons]) (use h in blast)+
qed

theorem createDefaultQueryFunction_meets_spec_witness:
  "(0::nat) < next_array
      \<lparr>cells = (\<lambda>_. [])(0 := [(1::int, ''a''), (0, ''b''), (1, ''c''), (0, ''d'')]), next_array = 1\<rparr> \<and>
   consistent_comparator (SortCompare (\<lambda>_. False) (\<lambda>a b. fst a - fst b))
      [(1::int, ''a''), (0, ''b''), (1, ''c''), (0, ''d'')] \<and>
   (\<exists>r H'. createDefaultQueryFunction (\<lambda>_. False) None (Some (\<lambda>a b. fst a - fst b))
              (Some 1) (Some 2) 0
              \<lparr>cells = (\<lambda>_. [])(0 := [(1::int, ''a''), (0, ''b''), (1, ''c''), (0, ''d'')]),
               next_array = 1\<rparr> = Some (r, H') \<and>
            cells H' r = [(0, ''d''), (1, ''a'')] \<and>
            cells H' 0 = [(1, ''a''), (0, ''b''), (1, ''c''), (0, ''d'')]) \<and>
   (\<exists>st H1. filter_sort (\<lambda>_. False) None (Some (\<lambda>a b. fst a - fst b)) 0
              \<lparr>cells = (\<lambda>_. [])(0 := [(1::int, ''a''), (0, ''b''), (1, ''c''), (0, ''d'')]),
               next_array = 1\<rparr> = Some (st, H1) \<and>
            createDefaultQueryFunction (\<lambda>_. False) None (Some (\<lambda>a b. fst a - fst b))
              (Some 0) (Some 4) 0
              \<lparr>cells = (\<lambda>_. [])(0 := [(1::int, ''a''), (0, ''b''), (1, ''c''), (0, ''d'')]),
               next_array = 1\<rparr> = Some (st, H1) \<and>
            st = 1 \<and> cells H1 st = [(0, ''b''), (0, ''d''), (1, ''a''), (1, ''c'')])"
proof -
  let ?xs = "[(1::int, ''a''), (0, ''b''), (1, ''c''), (0, ''d'')]"
  let ?H = "\<lparr>cells = (\<lambda>_. [])(0 := ?xs), next_array = 1\<rparr>"
  let ?ord = "\<lambda>(a::int \<times> string) b. fst a - fst b"
  let ?undef = "\<lambda>_::int \<times> string. False"
  have alloc: "(0::nat) < next_array ?H" by simp
  have cc: "consistent_comparator (SortCompare ?undef ?ord) ?xs"
    by (simp add: consistent_comparator_def SortCompare_def)
  have cons: "case Some ?ord of None \<Rightarrow> True
               | Some ord \<Rightarrow> consistent_comparator (SortCompare ?undef ord)
                   (case None of None \<Rightarrow> cells ?H 0 | Some p \<Rightarrow> filter p (cells ?H 0))"
    using cc by simp
  have lim: "(Some (0::int) = None \<or> Some (0::int) = Some 0) \<and>
          (Some (4::int) = None \<or>
             (\<exists>l. Some (4::int) = Some l \<and>
                  int (length (case None of None \<Rightarrow> cells ?H 0
                                | Some p \<Rightarrow> filter p (cells ?H 0))) \<le> l))"
    by simp
  note inst = createDefaultQueryFunction_meets_spec
    [OF alloc cons, where offset = "Some 1" and limit = "Some 2"
       and offset' = "Some 0" and limit' = "Some 4"]
  from inst obtain r H' where
    run: "createDefaultQueryFunction ?undef None (Some ?ord) (map_option int (Some 1))
            (map_option int (Some 2)) 0 ?H = Some (r, H')"
    and uniq: "\<forall>ys. buildQuery_spec ?undef None (Some ?ord) (Some 1) (Some 2) (cells ?H 0) ys \<longrightarrow>
                  ys = cells H' r"
    and old: "\<forall>a < next_array ?H. cells H' a = cells ?H a"
    by blast
  have "stable_sorted_by (SortCompare ?undef ?ord) ?xs [(0, ''b''), (0, ''d''), (1, ''a''), (1, ''c'')]"
    by (simp add: stable_sorted_by_def SortCompare_def)
  then have "buildQuery_spec ?undef None (Some ?ord) (Some 1) (Some 2) (cells ?H 0) [(0, ''d''), (1, ''a'')]"
    unfolding buildQuery_spec_def
    by (intro exI [of _ "[(0, ''b''), (0, ''d''), (1, ''a''), (1, ''c'')]"]) simp
  with uniq have val: "cells H' r = [(0, ''d''), (1, ''a'')]" by metis
  from old have inp: "cells H' 0 = ?xs" by simp
  from inst lim obtain st H1 where
    fs: "filter_sort ?undef None (Some ?ord) 0 ?H = Some (st, H1)"
    and fast: "createDefaultQueryFunction ?undef None (Some ?ord) (Some 0) (Some 4) 0 ?H = Some (st, H1)"
    by blast
  from fs have st1: "st = 1" and cs1: "cells H1 1 = [(0, ''b''), (0, ''d''), (1, ''a''), (1, ''c'')]"
    by (auto simp: filter_sort_def Array_spread_def Array_sort_def new_array_def
          consistent_comparator_def SortCompare_def stable_sort_def)
  from fs fast run val inp alloc cc st1 cs1 show ?thesis by auto
qed

text \<open>
  C5. The equality policy built at \<open>createTable\<close>: with no argument it is strict equality
  of the two records; with a field name it holds iff the two records have strictly equal
  values in that field; a function is used as it is; any other argument makes
  \<open>createComparator\<close> throw, and \<open>createTable\<close> then ends with that error in the world it
  started in, so no store is allocated and nothing is registered. In the three good cases
  the new store is registered under the returned handle and holds that policy.
\<close>

theorem createTable_equality_policy:
  "createComparator field Undefined = Inr (\<lambda>a b. a = b) \<and>
   createComparator field (Key k) = Inr (\<lambda>a b. field a k = field b k) \<and>
   createComparator field (EqualityFn f) = Inr f \<and>
   createComparator field OtherValue = Inl InvalidArgument \<and>
   (\<exists>c w'. createTable field Undefined w = (Inr c, w') \<and>
      TableRegistry_get (handle c) w' = Some (setState c) \<and>
      equalityFn (stores w' (setState c)) = (\<lambda>a b. a = b)) \<and>
   (\<exists>c w'. createTable field (Key k) w = (Inr c, w') \<and>
      TableRegistry_get (handle c) w' = Some (setState c) \<and>
      equalityFn (stores w' (setState c)) = (\<lambda>a b. field a k = field b k)) \<and>
   (\<exists>c w'. createTable field (EqualityFn f) w = (Inr c, w') \<and>
      TableRegistry_get (handle c) w' = Some (setState c) \<and>
      equalityFn (stores w' (setState c)) = f) \<and>
   createTable field OtherValue w = (Inl InvalidArgument, w)"
  by (simp add: createTable_def createComparator_def new_TableStore_def TableRegistry_set_def
        TableRegistry_get_def Let_def)

text \<open>
  C6, as the specification states it, fails: \<open>subscribe\<close> pushes without looking, so
  subscribing hook 0 a second time gives the array \<open>[0, 1, 2, 0]\<close> and one mutation
  notifies hook 0 twice.
\<close>

theorem double_subscribe_notified_twice:
  "0 \<in> set (subscriber (stores (three_hooks []) 0)) \<and>
   subscriber (stores (snd (Hook_subscribe 0 (three_hooks []))) 0) = [0, 1, 2, 0] \<and>
   visits (snd (TableStore_setStateAction 0 (Value [7])
      (snd (Hook_subscribe 0 (three_hooks []))))) = [0, 1, 2, 0]"
  using setStateAction_plain(2) [OF twice_subscribed(2), of "Value [7]"]
  by (simp add: twice_subscribed three_hooks_subs)

text \<open>
  C6, amended. The subscriber collection is an array that can hold an observer more than
  once. Subscribing an observer adds one entry for it (the set of members stays the same
  when it was a member already); unsubscribing removes its first entry only, and is a no-op
  that leaves the collection unchanged when the observer is not a member. When the
  subscribers are plain (each bound to a store, no rerender callback subscribing or
  unsubscribing during the fan-out), one mutation completes and visits the entries in
  order, so it notifies an observer once for each of its entries.
\<close>

theorem subscriber_collection_entries:
  "set (SubscriberCollection_subscribe h subs) = insert h (set subs) \<and>
   count_list (SubscriberCollection_subscribe h subs) h = Suc (count_list subs h) \<and>
   SubscriberCollection_unsubscribe h subs = remove1 h subs \<and>
   (h \<notin> set subs \<longrightarrow> SubscriberCollection_unsubscribe h subs = subs) \<and>
   (plain_subscribers t w \<longrightarrow>
      fst (TableStore_setStateAction t action w) = None \<and>
      visits (snd (TableStore_setStateAction t action w)) = visits w @ subscriber (stores w t) \<and>
      (\<forall>g. count_list (visits (snd (TableStore_setStateAction t action w))) g =
            count_list (visits w) g + count_list (subscriber (stores w t)) g))"
proof (intro conjI impI allI)
  show "set (SubscriberCollection_subscribe h subs) = insert h (set subs)"
    by (simp add: SubscriberCollection_subscribe_def)
  show "count_list (SubscriberCollection_subscribe h subs) h = Suc (count_list subs h)"
    by (simp add: SubscriberCollection_subscribe_def)
  show "SubscriberCollection_unsubscribe h subs = remove1 h subs"
    by (rule unsubscribe_remove1)
  show "SubscriberCollection_unsubscribe h subs = subs" if "h \<notin> set subs"
    using that by (simp add: unsubscribe_remove1 remove1_idem)
next
  assume pl: "plain_subscribers t w"
  show "fst (TableStore_setStateAction t action w) = None"
    using setStateAction_plain(1) [OF pl, of action] by simp
  show v: "visits (snd (TableStore_setStateAction t action w)) = visits w @ subscriber (stores w t)"
    by (rule setStateAction_plain(2) [OF pl])
  fix g
  show "count_list (visits (snd (TableStore_setStateAction t action w))) g =
            count_list (visits w) g + count_list (subscriber (stores w t)) g"
    unfolding v by simp
qed

theorem subscriber_collection_entries_witness:
  "SubscriberCollection_unsubscribe 5 [0, 1, 2] = [0, 1, 2] \<and>
   SubscriberCollection_unsubscribe 0 [0, 1, 2, 0] = [1, 2, 0] \<and>
   plain_subscribers 0 (snd (Hook_subscribe 0 (three_hooks []))) \<and>
   visits (snd (TableStore_setStateAction 0 (Value [7])
      (snd (Hook_subscribe 0 (three_hooks []))))) = [0, 1, 2, 0] \<and>
   count_list (visits (snd (TableStore_setStateAction 0 (Value [7])
      (snd (Hook_subscribe 0 (three_hooks [])))))) 0 = 2"
proof -
  let ?W = "snd (Hook_subscribe 0 (three_hooks []))"
  have notin: "(5::nat) \<notin> set [0, 1, 2]" by simp
  note a = subscriber_collection_entries [of 5 "[0, 1, 2]" 0 ?W "Value [7]"]
  note b = subscriber_collection_entries [of 0 "[0, 1, 2, 0]" 0 ?W "Value [7]"]
  from a notin have 1: "SubscriberCollection_unsubscribe 5 [0, 1, 2] = [0, 1, 2]" by blast
  from b have 2: "SubscriberCollection_unsubscribe 0 [0, 1, 2, 0] = remove1 0 [0, 1, 2, 0]"
    by blast
  from a twice_subscribed(2) have 3: "visits (snd (TableStore_setStateAction 0 (Value [7]) ?W)) =
      visits ?W @ subscriber (stores ?W 0)"
    by blast
  from 1 2 3 twice_subscribed show ?thesis by simp
qed



text \<open>
  C9. For every pair of optional predicates \<open>combinePredicates\<close> returns: its last branch,
  which throws, is never reached.
\<close>

theorem combinePredicates_never_throws:
  "\<exists>r. combinePredicates p1 p2 = Inr r"
  by (rule combine_never_throws)

text \<open>
  C8. The specification has every mutation through \<open>setStateAction\<close> install the new
  sequence and then run the rerender procedure of every subscribed observer. The state is
  installed, here by an updater, but the fan-out is the \<open>forEach\<close> of C1 and has its defect:
  with hooks 0, 1, 2 subscribed and hook 0 unsubscribing itself in its callback, hook 1
  is subscribed before and after the mutation and its rerender procedure is never run;
  its last result stays unset while hook 2 has the new one.
\<close>

theorem setStateAction_misses_subscribed_hook:
  "subscriber (stores (three_hooks [CallUnsubscribe 0]) 0) = [0, 1, 2] \<and>
   fst (TableStore_setStateAction 0 (Updater (\<lambda>old. old @ [7]))
          (three_hooks [CallUnsubscribe 0])) = None \<and>
   state (stores (snd (TableStore_setStateAction 0 (Updater (\<lambda>old. old @ [7]))
          (three_hooks [CallUnsubscribe 0]))) 0) = [7] \<and>
   1 \<in> set (subscriber (stores (snd (TableStore_setStateAction 0 (Updater (\<lambda>old. old @ [7]))
          (three_hooks [CallUnsubscribe 0]))) 0)) \<and>
   1 \<notin> set (visits (snd (TableStore_setStateAction 0 (Updater (\<lambda>old. old @ [7]))
          (three_hooks [CallUnsubscribe 0])))) \<and>
   oldState (hooks (snd (TableStore_setStateAction 0 (Updater (\<lambda>old. old @ [7]))
          (three_hooks [CallUnsubscribe 0]))) 1) = None \<and>
   oldState (hooks (snd (TableStore_setStateAction 0 (Updater (\<lambda>old. old @ [7]))
          (three_hooks [CallUnsubscribe 0]))) 2) = Some [7]"
  by (simp add: three_hooks_def world_defs Let_def TableStore_setStateAction_def
        TableStore_rerender_def SubscriberCollection_rerender_def forEach_subscriber.simps
        Hook_rerender_def call_triggerRerender_def set_oldState_def TableStore_executeQuery_def)

text \<open>
  C10. The specification has \<open>setState\<close> still notify every observer that remains
  subscribed after the table was disposed. Disposal itself does what is claimed: of two
  tables, the cleanup of the first removes its registry entry and leaves the entry of the
  second and the stores as they were, and \<open>setState\<close> of the first still installs the new
  state. But its fan-out has the defect of C1: with hook 0 unsubscribing itself in its
  callback, hook 1 remains subscribed and is not notified.
\<close>

theorem disposed_table_setState_misses_hook:
  "TableRegistry_get 0
     (snd (createTable (\<lambda>(a::int) k. a) Undefined (three_hooks [CallUnsubscribe 0]))) = Some 0 \<and>
   TableRegistry_get 0 (TableRegistry_delete 0
     (snd (createTable (\<lambda>(a::int) k. a) Undefined (three_hooks [CallUnsubscribe 0])))) = None \<and>
   TableRegistry_get 1 (TableRegistry_delete 0
     (snd (createTable (\<lambda>(a::int) k. a) Undefined (three_hooks [CallUnsubscribe 0])))) = Some 1 \<and>
   subscriber (stores (TableRegistry_delete 0
     (snd (createTable (\<lambda>(a::int) k. a) Undefined (three_hooks [CallUnsubscribe 0])))) 0) = [0, 1, 2] \<and>
   fst (TableStore_setStateAction 0 (Value [7]) (TableRegistry_delete 0
     (snd (createTable (\<lambda>(a::int) k. a) Undefined (three_hooks [CallUnsubscribe 0]))))) = None \<and>
   state (stores (snd (TableStore_setStateAction 0 (Value [7]) (TableRegistry_delete 0
     (snd (createTable (\<lambda>(a::int) k. a) Undefined (three_hooks [CallUnsubscribe 0])))))) 0) = [7] \<and>
   subscriber (stores (snd (TableStore_setStateAction 0 (Value [7]) (TableRegistry_delete 0
     (snd (createTable (\<lambda>(a::int) k. a) Undefined (three_hooks [CallUnsubscribe 0])))))) 0) = [1, 2] \<and>
   visits (snd (TableStore_setStateAction 0 (Value [7]) (TableRegistry_delete 0
     (snd (createTable (\<lambda>(a::int) k. a) Undefined (three_hooks [CallUnsubscribe 0])))))) = [0, 2]"
  by (simp add: three_hooks_def world_defs Let_def TableRegistry_delete_def
        TableStore_setStateAction_def
        TableStore_rerender_def SubscriberCollection_rerender_def forEach_subscriber.simps
        Hook_rerender_def call_triggerRerender_def set_oldState_def TableStore_executeQuery_def)

end
